theory Spec2Isabelle
  imports Main "HOL-Library.Word"
begin

section \<open>Strings, errors and readers\<close>

text \<open>
  A Go string holding valid UTF-8 is modelled as the list of its code points (Go's
  \<^verbatim>\<open>rune\<close>, an \<^verbatim>\<open>int32\<close>; no arithmetic of the program leaves that range, so a rune is an
  \<open>int\<close>). The functions of package \<^verbatim>\<open>strings\<close> used by the parsers search for ASCII or
  single-rune patterns, so on valid UTF-8 the byte view and the rune view agree. The raw-text
  parser never decodes its input: there the data stays a list of bytes.
\<close>

type_synonym rune = int
type_synonym gostring = "rune list"
type_synonym byte = "8 word"

definition str :: "string \<Rightarrow> gostring" where
  "str s = map (\<lambda>c. int (of_char c)) s"

text \<open>Every \<^verbatim>\<open>fmt.Errorf\<close>, and the one run-time panic, of the modelled functions.\<close>

datatype error =
    FileSizeExceeds int int
  | ErrorReadingTextFile
  | PanicMakeslice
  | FailedToOpenFile
  | NoDataFound
  | ErrorReadingPDF
  | ErrorReadingPowerPoint
  | ErrorReadingWordFile
  | ErrorOpeningFile
  | ErrorParsingXML

text \<open>
  An \<^verbatim>\<open>io.ReaderAt\<close> is used through \<^verbatim>\<open>ReadAt(buffer, 0)\<close> only: the model of a reader maps the
  length of the buffer to the bytes stored (\<^verbatim>\<open>buffer[:n]\<close>) and the error returned.
\<close>

datatype io_error = EOF | OtherError

type_synonym ReaderAt = "nat \<Rightarrow> byte list \<times> io_error option"

text \<open>\<^verbatim>\<open>bytes.NewReader(data)\<close>: \<^verbatim>\<open>ReadAt\<close> at offset 0 reports \<^verbatim>\<open>io.EOF\<close> at once on empty data,
  and otherwise when it copies fewer bytes than the buffer holds.\<close>

definition bytes_NewReader :: "byte list \<Rightarrow> ReaderAt" where
  "bytes_NewReader s len =
     (if 0 \<ge> length s then ([], Some EOF)
      else (take len s, if length (take len s) < len then Some EOF else None))"

section \<open>Package strings\<close>

text \<open>
  \<^verbatim>\<open>strings.HasPrefix\<close>, \<^verbatim>\<open>HasSuffix\<close>, \<^verbatim>\<open>Contains\<close>, \<^verbatim>\<open>ReplaceAll\<close> and \<^verbatim>\<open>Join\<close>.
  \<^verbatim>\<open>ReplaceAll\<close> replaces the non-overlapping occurrences of \<^verbatim>\<open>old\<close> from left to right; with
  an empty \<^verbatim>\<open>old\<close> it inserts \<^verbatim>\<open>new\<close> before every rune and at the end.
\<close>

definition HasPrefix :: "'a list \<Rightarrow> 'a list \<Rightarrow> bool" where
  "HasPrefix s pre = (length s \<ge> length pre \<and> take (length pre) s = pre)"

definition HasSuffix :: "'a list \<Rightarrow> 'a list \<Rightarrow> bool" where
  "HasSuffix s suf = (length s \<ge> length suf \<and> drop (length s - length suf) s = suf)"

fun Contains :: "'a list \<Rightarrow> 'a list \<Rightarrow> bool" where
  "Contains [] substr = HasPrefix [] substr"
| "Contains (c # s) substr = (HasPrefix (c # s) substr \<or> Contains s substr)"

fun ReplaceAll :: "'a list \<Rightarrow> 'a list \<Rightarrow> 'a list \<Rightarrow> 'a list" where
  "ReplaceAll [] old new = (if old = [] then new else [])"
| "ReplaceAll (c # s) old new =
     (if old = [] then new @ c # ReplaceAll s old new
      else if HasPrefix (c # s) old then new @ ReplaceAll (drop (length old) (c # s)) old new
      else c # ReplaceAll s old new)"

fun Join :: "'a list list \<Rightarrow> 'a list \<Rightarrow> 'a list" where
  "Join [] sep = []"
| "Join [e] sep = e"
| "Join (e # es) sep = e @ sep @ Join es sep"

section \<open>The raw-text parser (text.go)\<close>

definition maxSize :: int where
  "maxSize = 100 * 1024 * 1024"

definition TextParser_ParseFromBytes :: "byte list \<Rightarrow> error + byte list" where
  "TextParser_ParseFromBytes data =
     (if int (length data) > maxSize
      then Inl (FileSizeExceeds (int (length data)) maxSize)
      else Inr data)"

definition TextParser_ParseFromReader :: "ReaderAt \<Rightarrow> int \<Rightarrow> error + byte list" where
  "TextParser_ParseFromReader reader sz =
     (if sz > maxSize then Inl (FileSizeExceeds sz maxSize)
      else if sz < 0 then Inl PanicMakeslice
      else (case reader (nat sz) of
              (read, Some OtherError) \<Rightarrow> Inl ErrorReadingTextFile
            | (read, _) \<Rightarrow> Inr read))"

section \<open>The text sanitizer (pdf.go)\<close>

text \<open>\<^verbatim>\<open>unicode.IsSpace\<close>, and \<^verbatim>\<open>strings.TrimSpace\<close>, which removes the leading and the trailing
  runes that are spaces in this sense.\<close>

definition isSpace :: "rune \<Rightarrow> bool" where
  "isSpace r = ((0x09 \<le> r \<and> r \<le> 0x0D) \<or> r = 0x20 \<or> r = 0x85 \<or> r = 0xA0 \<or> r = 0x1680 \<or>
     (0x2000 \<le> r \<and> r \<le> 0x200A) \<or> r = 0x2028 \<or> r = 0x2029 \<or> r = 0x202F \<or> r = 0x205F \<or>
     r = 0x3000)"

definition TrimSpace :: "gostring \<Rightarrow> gostring" where
  "TrimSpace s = rev (dropWhile isSpace (rev (dropWhile isSpace s)))"

text \<open>The two passes of the sanitizer that are written as loops over the runes of the text:
  each loop appends to a \<^verbatim>\<open>strings.Builder\<close>, here the accumulator of a fold.\<close>

definition isJapaneseChar :: "rune \<Rightarrow> bool" where
  "isJapaneseChar r = ((r \<ge> 0x3040 \<and> r \<le> 0x309F) \<or>
     (r \<ge> 0x30A0 \<and> r \<le> 0x30FF) \<or>
     (r \<ge> 0x4E00 \<and> r \<le> 0x9FAF))"

definition convertFullWidthToHalfWidth :: "gostring \<Rightarrow> gostring" where
  "convertFullWidthToHalfWidth text =
     fold (\<lambda>r result.
       if r \<ge> 0xFF01 \<and> r \<le> 0xFF5E
       then (let halfWidth = r - 0xFF00 + 0x0020 in result @ [halfWidth])
       else result @ [r]) text []"

definition removeJapaneseSpaces :: "gostring \<Rightarrow> gostring" where
  "removeJapaneseSpaces text =
     (let runes = text in
      fold (\<lambda>i result.
        let r = runes ! i in
        if r = 0x20 \<and>
           (let prevIsJapanese = (i > 0 \<and> isJapaneseChar (runes ! (i - 1)));
                nextIsJapanese = (int i < int (length runes) - 1 \<and> isJapaneseChar (runes ! (i + 1)))
            in prevIsJapanese \<and> nextIsJapanese)
        then result
        else result @ [r]) [0..<length runes] [])"

text \<open>
  The sanitizer replaces double spaces by single ones for as long as the text contains a double
  space. Every round shortens the text, so the loop ends.
\<close>

lemma HasPrefix_iff: "HasPrefix s p \<longleftrightarrow> (\<exists>ys. s = p @ ys)"
proof
  assume "HasPrefix s p"
  then have "s = p @ drop (length p) s"
    by (metis HasPrefix_def append_take_drop_id)
  then show "\<exists>ys. s = p @ ys" ..
next
  assume "\<exists>ys. s = p @ ys"
  then show "HasPrefix s p"
    by (auto simp: HasPrefix_def)
qed

lemma Contains_iff: "Contains s p \<longleftrightarrow> (\<exists>xs ys. s = xs @ p @ ys)"
proof (induction s)
  case Nil
  show ?case by (auto simp: HasPrefix_iff)
next
  case (Cons c s)
  show ?case
  proof
    assume "Contains (c # s) p"
    then consider "HasPrefix (c # s) p" | "Contains s p" by auto
    then show "\<exists>xs ys. c # s = xs @ p @ ys"
    proof cases
      case 1
      then obtain ys where "c # s = [] @ p @ ys" by (auto simp: HasPrefix_iff)
      then show ?thesis by blast
    next
      case 2
      with Cons.IH obtain xs ys where "s = xs @ p @ ys" by blast
      then have "c # s = (c # xs) @ p @ ys" by simp
      then show ?thesis by blast
    qed
  next
    assume "\<exists>xs ys. c # s = xs @ p @ ys"
    then obtain xs ys where eq: "c # s = xs @ p @ ys" by blast
    show "Contains (c # s) p"
    proof (cases xs)
      case Nil
      with eq have "HasPrefix (c # s) p" by (auto simp: HasPrefix_iff)
      then show ?thesis by simp
    next
      case (Cons x xs')
      with eq have "s = xs' @ p @ ys" by simp
      with Cons.IH have "Contains s p" by blast
      then show ?thesis by simp
    qed
  qed
qed

lemma ReplaceAll_length_le:
  "length new \<le> length old \<Longrightarrow> length (ReplaceAll s old new) \<le> length s"
proof (induction s old new rule: ReplaceAll.induct)
  case (1 old new)
  then show ?case by auto
next
  case (2 c s old new)
  show ?case
  proof (cases "old = []")
    case True
    with 2 show ?thesis by simp
  next
    case False
    show ?thesis
    proof (cases "HasPrefix (c # s) old")
      case True
      then have len: "length old \<le> Suc (length s)" by (simp add: HasPrefix_def)
      from 2 False True
      have "length (ReplaceAll (drop (length old) (c # s)) old new)
              \<le> length (drop (length old) (c # s))" by simp
      with len 2(4) False True show ?thesis by simp
    next
      case nopre: False
      with 2 False show ?thesis by simp
    qed
  qed
qed

lemma ReplaceAll_length_less:
  "Contains s old \<Longrightarrow> length new < length old \<Longrightarrow> length (ReplaceAll s old new) < length s"
proof (induction s old new rule: ReplaceAll.induct)
  case (1 old new)
  then show ?case by (auto simp: HasPrefix_def)
next
  case (2 c s old new)
  then have ne: "old \<noteq> []" by auto
  show ?case
  proof (cases "HasPrefix (c # s) old")
    case True
    then have len: "length old \<le> Suc (length s)" by (simp add: HasPrefix_def)
    have "length (ReplaceAll (drop (length old) (c # s)) old new)
              \<le> length (drop (length old) (c # s))"
      using 2(5) by (intro ReplaceAll_length_le) simp
    with len 2(5) ne True show ?thesis by simp
  next
    case False
    with 2(4) have "Contains s old" by simp
    with 2 ne False show ?thesis by simp
  qed
qed

function collapseSpaces :: "gostring \<Rightarrow> gostring" where
  "collapseSpaces text =
     (if Contains text [0x20, 0x20] then collapseSpaces (ReplaceAll text [0x20, 0x20] [0x20])
      else text)"
  by pat_completeness auto
termination
  by (relation "measure length") (simp_all add: ReplaceAll_length_less)

declare collapseSpaces.simps [simp del]

definition sanitizeText :: "gostring \<Rightarrow> gostring" where
  "sanitizeText text0 =
     (let text = ReplaceAll text0 [0xFFFD] [];
          text = convertFullWidthToHalfWidth text;
          text = removeJapaneseSpaces text;
          text = ReplaceAll text [0x09] [0x20];
          text = ReplaceAll text [0x0D, 0x0A] [0x0A];
          text = ReplaceAll text [0x0D] [0x0A];
          text = collapseSpaces text
      in TrimSpace text)"

section \<open>The PDF parser (pdf.go)\<close>

text \<open>The \<^verbatim>\<open>%d\<close> verb of \<^verbatim>\<open>fmt.Sprintf\<close> on a page or slide number (never negative).\<close>

fun Itoa :: "nat \<Rightarrow> gostring" where
  "Itoa n = (if n < 10 then [0x30 + int n] else Itoa (n div 10) @ [0x30 + int (n mod 10)])"

declare Itoa.simps [simp del]

text \<open>
  What the parser sees of the library \<^verbatim>\<open>github.com/ledongthuc/pdf\<close>: \<^verbatim>\<open>pdf.NewReader\<close> fails
  (\<open>None\<close>) or gives a reader of \<^verbatim>\<open>NumPage()\<close> pages; \<^verbatim>\<open>Page(i)\<close>, for \<open>i\<close> from 1, is a page
  whose value is null (\<^verbatim>\<open>page.V.IsNull()\<close>) or a page with the strings \<^verbatim>\<open>S\<close> of its
  \<^verbatim>\<open>Content().Text\<close>, in order.
\<close>

datatype pdf_Page = NullPage | Page "gostring list"

definition PDFParser_ParseFromReader :: "pdf_Page list option \<Rightarrow> error + gostring" where
  "PDFParser_ParseFromReader pdfReader =
     (case pdfReader of
        None \<Rightarrow> Inl ErrorReadingPDF
      | Some pages \<Rightarrow>
          (let numPages = length pages in
           Inr (fold (\<lambda>i result.
                  case pages ! (i - 1) of
                    NullPage \<Rightarrow> result
                  | Page texts \<Rightarrow>
                      (let result = result @ str ''## Page '' @ Itoa i @ [0x0A, 0x0A];
                           pageTexts = fold (\<lambda>t pageTexts.
                               let cleanedText = TrimSpace t in
                               if cleanedText \<noteq> [] then pageTexts @ [cleanedText] else pageTexts)
                             texts [];
                           result = (if length pageTexts > 0
                                     then (let pageContent = Join pageTexts (str '' '');
                                               sanitizedContent = sanitizeText pageContent
                                           in result @ sanitizedContent)
                                     else result)
                       in result @ [0x0A, 0x0A]))
                [1..<numPages + 1] [])))"

section \<open>The spreadsheet parser (xlsx.go)\<close>

text \<open>
  What the parser sees of the library \<^verbatim>\<open>excelize\<close>: \<^verbatim>\<open>OpenReader\<close> fails (\<open>None\<close>) or gives a
  workbook; \<^verbatim>\<open>GetSheetList()\<close> is the list of its sheet names in workbook order; \<^verbatim>\<open>Rows(sheet)\<close>
  fails (\<open>None\<close>) or gives the rows of the sheet, and for each row \<^verbatim>\<open>Columns()\<close> fails
  (\<open>None\<close>) or gives the cell values. A workbook is the list of its sheets, each the name with
  the outcome of \<^verbatim>\<open>Rows\<close>.
\<close>

type_synonym xl_row = "gostring list option"
type_synonym xl_sheet = "gostring \<times> xl_row list option"

record sheetContent =
  name :: gostring
  content :: gostring

definition extractSheets :: "xl_sheet list option \<Rightarrow> error + sheetContent list" where
  "extractSheets f =
     (case f of
        None \<Rightarrow> Inl FailedToOpenFile
      | Some sheetList \<Rightarrow>
          (let results = fold (\<lambda>(sheet, rows) results.
                 case rows of
                   None \<Rightarrow> results
                 | Some rs \<Rightarrow>
                     (let buf = fold (\<lambda>row buf.
                            case row of
                              None \<Rightarrow> buf
                            | Some cells \<Rightarrow> buf @ Join cells (str '' | '') @ [0x0A])
                          rs []
                      in results @ [\<lparr>name = sheet, content = buf\<rparr>]))
               sheetList []
           in if length results = 0 then Inl NoDataFound else Inr results))"

definition ExcelParser_ParseFromReader :: "xl_sheet list option \<Rightarrow> error + gostring" where
  "ExcelParser_ParseFromReader f =
     (case extractSheets f of
        Inl err \<Rightarrow> Inl err
      | Inr sheets \<Rightarrow>
          (let buf = fold (\<lambda>sheet buf.
                 buf @ (str ''# Sheet '' @ name sheet @ [0x0A]) @ content sheet
                     @ [0x0A, 0x2D, 0x2D, 0x2D, 0x0A, 0x0A])
               sheets []
           in if length buf = 0 then Inl NoDataFound else Inr buf))"

text \<open>The result is a Go \<^verbatim>\<open>map[string]string\<close>: a finite map without any order of its keys.\<close>

definition ExcelParser_ParseWithPages :: "xl_sheet list option \<Rightarrow> error + (gostring \<rightharpoonup> gostring)" where
  "ExcelParser_ParseWithPages f =
     (case extractSheets f of
        Inl err \<Rightarrow> Inl err
      | Inr sheets \<Rightarrow>
          Inr (fold (\<lambda>sheet result. result(name sheet \<mapsto> content sheet)) sheets Map.empty))"

section \<open>The presentation parser (pptx.go)\<close>

record TextRun =
  Text :: gostring

record Paragraph =
  Runs :: "TextRun list"

record TextBody =
  Paragraphs :: "Paragraph list"

record Shape =
  TextBody :: TextBody

record SlideData =
  Shapes :: "Shape list"

record Slide =
  SlideData :: SlideData

definition extractTextFromSlide :: "Slide \<Rightarrow> gostring" where
  "extractTextFromSlide slide =
     (let result =
        fold (\<lambda>shape result.
          fold (\<lambda>paragraph result.
            let paragraphText =
              fold (\<lambda>run paragraphText.
                if Text run \<noteq> [] then paragraphText @ Text run else paragraphText)
              (Runs paragraph) []
            in if length paragraphText > 0 then result @ [paragraphText] else result)
          (Paragraphs (TextBody shape)) result)
        (Shapes (SlideData slide)) []
      in Join result [0x0A])"

text \<open>
  What the parser sees of an archive entry (\<^verbatim>\<open>archive/zip\<close>, \<^verbatim>\<open>encoding/xml\<close>): its name, and
  what opening, reading and decoding it as a slide give: \<^verbatim>\<open>f.Open()\<close> fails, or \<^verbatim>\<open>io.ReadAll\<close>
  fails, or \<^verbatim>\<open>xml.Unmarshal\<close> fails, or the slide is decoded. \<^verbatim>\<open>zip.NewReader\<close> fails (\<open>None\<close>)
  or gives the entries in archive order.
\<close>

datatype slide_payload = OpenFails | ReadFails | UnmarshalFails | Decoded Slide

type_synonym pptx_File = "gostring \<times> slide_payload"

definition PPTXParser_ParseFromReader :: "pptx_File list option \<Rightarrow> error + gostring" where
  "PPTXParser_ParseFromReader r =
     (case r of
        None \<Rightarrow> Inl ErrorReadingPowerPoint
      | Some files \<Rightarrow>
          Inr (fst (fold (\<lambda>(fName, payload) (allText, slideNum).
                 if HasPrefix fName (str ''ppt/slides/slide'') \<and>
                    HasSuffix fName (str ''.xml'') \<and>
                    \<not> Contains fName (str ''Layout'') \<and>
                    \<not> Contains fName (str ''Master'')
                 then (case payload of
                         OpenFails \<Rightarrow> (allText, slideNum)
                       | ReadFails \<Rightarrow> (allText, slideNum)
                       | UnmarshalFails \<Rightarrow> (allText, slideNum)
                       | Decoded slide \<Rightarrow>
                           (let extractedText = extractTextFromSlide slide;
                                allText = allText @ str ''## Slide '' @ Itoa slideNum @ [0x0A];
                                allText = (if length extractedText > 0
                                           then allText @ extractedText
                                           else allText @ str ''(No text found)'');
                                allText = allText @ [0x0A, 0x0A]
                            in (allText, slideNum + 1)))
                 else (allText, slideNum))
               files ([], 1))))"

section \<open>The word-processing parser (docx.go)\<close>

record DocxText =
  Content :: gostring

record DocxRun =
  RunText :: DocxText

record DocxParagraph =
  ParagraphRuns :: "DocxRun list"

record DocxTableCell =
  CellParagraphs :: "DocxParagraph list"

record DocxTableRow =
  Cells :: "DocxTableCell list"

record DocxTable =
  Rows :: "DocxTableRow list"

definition extractTextFromParagraph :: "DocxParagraph \<Rightarrow> gostring" where
  "extractTextFromParagraph p =
     fold (\<lambda>run paragraphText. paragraphText @ Content (RunText run)) (ParagraphRuns p) []"

definition extractTextFromTable :: "DocxTable \<Rightarrow> gostring" where
  "extractTextFromTable tbl =
     fold (\<lambda>row sb.
       let rowTexts =
         fold (\<lambda>cell rowTexts.
           fold (\<lambda>p rowTexts.
             let text = extractTextFromParagraph p in
             if text \<noteq> [] then rowTexts @ [text] else rowTexts)
           (CellParagraphs cell) rowTexts)
         (Cells row) []
       in if length rowTexts > 0 then sb @ Join rowTexts [0x09] @ [0x0A] else sb)
     (Rows tbl) []"

text \<open>
  The parser walks the tokens of \<^verbatim>\<open>word/document.xml\<close> and decodes, inside the body, every
  element named \<^verbatim>\<open>p\<close> into a paragraph and every element named \<^verbatim>\<open>tbl\<close> into a table;
  \<^verbatim>\<open>DecodeElement\<close> consumes the whole element, and every other token is passed over. What it
  sees of the document is therefore the sequence of these elements in document order, each
  decoded or failing to decode; a failure of the tokenizer itself ends the sequence the same
  way.
\<close>

datatype docx_element = ParagraphElement DocxParagraph | TableElement DocxTable | MalformedElement

fun docx_walk :: "docx_element list \<Rightarrow> gostring \<Rightarrow> error + gostring" where
  "docx_walk [] allText = Inr allText"
| "docx_walk (ParagraphElement p # rest) allText =
     (let text = extractTextFromParagraph p in
      if text \<noteq> [] then docx_walk rest (allText @ text @ [0x0A]) else docx_walk rest allText)"
| "docx_walk (TableElement tbl # rest) allText = docx_walk rest (allText @ extractTextFromTable tbl)"
| "docx_walk (MalformedElement # rest) allText = Inl ErrorParsingXML"

text \<open>An archive entry: its name, and \<^verbatim>\<open>f.Open()\<close> failing (\<open>None\<close>) or the elements of its body.\<close>

type_synonym docx_File = "gostring \<times> docx_element list option"

fun docx_find :: "docx_File list \<Rightarrow> error + gostring" where
  "docx_find [] = Inr []"
| "docx_find ((fName, body) # files) =
     (if fName = str ''word/document.xml''
      then (case body of
              None \<Rightarrow> Inl ErrorOpeningFile
            | Some elements \<Rightarrow> docx_walk elements [])
      else docx_find files)"

definition DOCXParser_ParseFromReader :: "docx_File list option \<Rightarrow> error + gostring" where
  "DOCXParser_ParseFromReader r =
     (case r of
        None \<Rightarrow> Inl ErrorReadingWordFile
      | Some files \<Rightarrow> docx_find files)"

text \<open>
  The other implementation in the repository (\<^verbatim>\<open>docx.go\<close> of package \<^verbatim>\<open>service\<close>) decodes the
  whole document and assembles its body paragraphs with \<^verbatim>\<open>extractTextFromDocument\<close>.
\<close>

record DocxBody =
  BodyParagraphs :: "DocxParagraph list"

record DocxDocument =
  Body :: DocxBody

definition extractTextFromDocument :: "DocxDocument \<Rightarrow> gostring" where
  "extractTextFromDocument document =
     (let result =
        fold (\<lambda>paragraph result.
          let paragraphText =
            fold (\<lambda>run paragraphText.
              if Content (RunText run) \<noteq> [] then paragraphText @ Content (RunText run)
              else paragraphText)
            (ParagraphRuns paragraph) []
          in if length paragraphText > 0 then result @ [paragraphText] else result @ [[]])
        (BodyParagraphs (Body document)) []
      in Join result [0x0A])"

section \<open>Properties of the raw-text parser\<close>

text \<open>
  C7. The raw-text parser caps its input at 100 MiB = 104857600 bytes, strictly: data of exactly
  that length is returned by both entry points (the reader-based one reading from an in-memory
  reader, or from any reader that reports no error other than end of input), and a length or
  declared size of 104857601 or more is refused with the size error; the reader-based entry point
  refuses whatever the reader is, so nothing is read before the refusal.
\<close>

theorem text_size_cap_strict:
  "(length data = 104857600 \<longrightarrow>
      TextParser_ParseFromBytes data = Inr data \<and>
      TextParser_ParseFromReader (bytes_NewReader data) 104857600 = Inr data) \<and>
   (length data \<ge> 104857601 \<longrightarrow>
      TextParser_ParseFromBytes data = Inl (FileSizeExceeds (int (length data)) 104857600)) \<and>
   (sz \<ge> 104857601 \<longrightarrow>
      TextParser_ParseFromReader reader sz = Inl (FileSizeExceeds sz 104857600)) \<and>
   (snd (reader 104857600) \<noteq> Some OtherError \<longrightarrow>
      TextParser_ParseFromReader reader 104857600 = Inr (fst (reader 104857600)))"
proof -
  have cap: "maxSize = 104857600"
    by (simp add: maxSize_def)
  have exact: "TextParser_ParseFromBytes data = Inr data \<and>
      TextParser_ParseFromReader (bytes_NewReader data) 104857600 = Inr data"
    if "length data = 104857600"
    using that by (auto simp: TextParser_ParseFromBytes_def TextParser_ParseFromReader_def
        bytes_NewReader_def cap)
  have over: "TextParser_ParseFromBytes data = Inl (FileSizeExceeds (int (length data)) 104857600)"
    if "length data \<ge> 104857601"
    using that by (simp add: TextParser_ParseFromBytes_def cap)
  have over_reader: "TextParser_ParseFromReader reader sz = Inl (FileSizeExceeds sz 104857600)"
    if "sz \<ge> 104857601"
    using that by (simp add: TextParser_ParseFromReader_def cap)
  have exact_reader: "TextParser_ParseFromReader reader 104857600 = Inr (fst (reader 104857600))"
    if "snd (reader 104857600) \<noteq> Some OtherError"
  proof (cases "reader 104857600")
    case (Pair read err)
    with that show ?thesis
      by (cases err) (auto simp: TextParser_ParseFromReader_def cap split: io_error.splits)
  qed
  from exact over over_reader exact_reader show ?thesis
    by blast
qed

theorem text_size_cap_strict_witness:
  "TextParser_ParseFromBytes (replicate 104857600 0) = Inr (replicate 104857600 0) \<and>
   TextParser_ParseFromReader (bytes_NewReader (replicate 104857600 0)) 104857600
     = Inr (replicate 104857600 0) \<and>
   TextParser_ParseFromBytes (replicate 104857601 0) = Inl (FileSizeExceeds 104857601 104857600) \<and>
   TextParser_ParseFromReader (\<lambda>n. ([], Some OtherError)) 104857601
     = Inl (FileSizeExceeds 104857601 104857600) \<and>
   TextParser_ParseFromReader (\<lambda>n. ([7], Some EOF)) 104857600 = Inr [7]"
  using text_size_cap_strict [of "replicate 104857600 0" 104857601 "\<lambda>n. ([7], Some EOF)"]
    text_size_cap_strict [of "replicate 104857601 0" 104857601 "\<lambda>n. ([], Some OtherError)"]
  by simp

text \<open>
  C10. On data of at most 100 MiB the bytes-based entry point of the raw-text parser succeeds
  and returns the data itself, byte for byte.
\<close>

theorem text_bytes_identity:
  "int (length data) \<le> 100 * 1024 * 1024 \<Longrightarrow> TextParser_ParseFromBytes data = Inr data"
  by (simp add: TextParser_ParseFromBytes_def maxSize_def)

theorem text_bytes_identity_witness:
  "int (length [0x48, 0x69, 0xFF :: byte]) \<le> 100 * 1024 * 1024 \<and>
   TextParser_ParseFromBytes [0x48, 0x69, 0xFF] = Inr [0x48, 0x69, 0xFF]"
  using text_bytes_identity [of "[0x48, 0x69, 0xFF]"] by simp

section \<open>Properties of the text sanitizer\<close>

subsection \<open>Loop-free forms\<close>

lemma fold_append_concat:
  "fold (\<lambda>x result. result @ g x) xs acc = acc @ concat (map g xs)"
  by (induction xs arbitrary: acc) simp_all

lemma convertFullWidthToHalfWidth_map:
  "convertFullWidthToHalfWidth text =
     map (\<lambda>r. if r \<ge> 0xFF01 \<and> r \<le> 0xFF5E then r - 0xFF00 + 0x0020 else r) text"
proof -
  have "convertFullWidthToHalfWidth text =
      fold (\<lambda>r result. result @ [if r \<ge> 0xFF01 \<and> r \<le> 0xFF5E then r - 0xFF00 + 0x0020 else r]) text []"
    unfolding convertFullWidthToHalfWidth_def Let_def
    by (rule arg_cong [where f = "\<lambda>f. fold f text []"]) (rule ext, rule ext, simp)
  then show ?thesis
    by (simp add: fold_append_concat)
qed

text \<open>Auxiliary: position \<open>i\<close> of \<open>runes\<close> holds a plain space that the loop of
  \<^verbatim>\<open>removeJapaneseSpaces\<close> passes over.\<close>

definition deleted :: "gostring \<Rightarrow> nat \<Rightarrow> bool" where
  "deleted runes i = (runes ! i = 0x20 \<and> i > 0 \<and> isJapaneseChar (runes ! (i - 1)) \<and>
     i + 1 < length runes \<and> isJapaneseChar (runes ! (i + 1)))"

lemma removeJapaneseSpaces_concat:
  "removeJapaneseSpaces runes =
     concat (map (\<lambda>i. if deleted runes i then [] else [runes ! i]) [0..<length runes])"
proof -
  have "removeJapaneseSpaces runes =
      fold (\<lambda>i result. result @ (if deleted runes i then [] else [runes ! i])) [0..<length runes] []"
    unfolding removeJapaneseSpaces_def Let_def
    by (rule arg_cong [where f = "\<lambda>f. fold f [0..<length runes] []"])
       (rule ext, rule ext, auto simp: deleted_def)
  then show ?thesis
    by (simp add: fold_append_concat)
qed

text \<open>Auxiliary: the same loop as a recursion over the runes still to be visited, with the
  rune visited last.\<close>

fun rjs :: "rune option \<Rightarrow> gostring \<Rightarrow> gostring" where
  "rjs prev [] = []"
| "rjs prev (r # rs) =
     (if r = 0x20 \<and> (case prev of None \<Rightarrow> False | Some p \<Rightarrow> isJapaneseChar p) \<and>
         (case rs of [] \<Rightarrow> False | n # _ \<Rightarrow> isJapaneseChar n)
      then rjs (Some r) rs else r # rjs (Some r) rs)"

lemma rjs_window:
  "xs = pre @ rs \<Longrightarrow>
   concat (map (\<lambda>i. if deleted xs i then [] else [xs ! i]) [length pre..<length pre + length rs])
     = rjs (if pre = [] then None else Some (last pre)) rs"
proof (induction rs arbitrary: pre)
  case Nil
  show ?case by simp
next
  case (Cons r rs)
  have split: "[length pre..<length pre + length (r # rs)]
      = length pre # [length (pre @ [r])..<length (pre @ [r]) + length rs]"
    by (simp add: upt_rec)
  have here: "deleted xs (length pre) \<longleftrightarrow>
      (r = 0x20 \<and> (case (if pre = [] then None else Some (last pre)) of
                      None \<Rightarrow> False | Some p \<Rightarrow> isJapaneseChar p) \<and>
        (case rs of [] \<Rightarrow> False | n # _ \<Rightarrow> isJapaneseChar n))"
    unfolding Cons.prems
    by (cases rs; cases pre rule: rev_cases) (auto simp: deleted_def nth_append)
  have rest: "concat (map (\<lambda>i. if deleted xs i then [] else [xs ! i])
       [length (pre @ [r])..<length (pre @ [r]) + length rs]) = rjs (Some r) rs"
    using Cons.IH [of "pre @ [r]"] Cons.prems by simp
  have r: "xs ! length pre = r"
    by (simp add: Cons.prems)
  show ?case
    unfolding split using here rest r by simp
qed

lemma removeJapaneseSpaces_rjs: "removeJapaneseSpaces runes = rjs None runes"
  using rjs_window [of runes "[]" runes] by (simp add: removeJapaneseSpaces_concat)

subsection \<open>Facts about the string functions\<close>

lemma HasPrefix_single [simp]: "HasPrefix (x # s) [c] \<longleftrightarrow> x = c"
  by (auto simp: HasPrefix_def)

lemma HasPrefix_pair [simp]: "HasPrefix (x # y # s) [a, b] \<longleftrightarrow> x = a \<and> y = b"
  by (auto simp: HasPrefix_def)

lemma HasPrefix_pair_short [simp]: "\<not> HasPrefix [x] [a, b]" "\<not> HasPrefix [] [a, b]"
  by (auto simp: HasPrefix_def)

lemma Contains_single: "Contains s [c] \<longleftrightarrow> c \<in> set s"
  by (induction s) (auto simp: HasPrefix_def)

lemma Contains_pair_fst: "Contains s [a, b] \<Longrightarrow> a \<in> set s"
  by (auto simp: Contains_iff)

lemma ReplaceAll_absent:
  "old \<noteq> [] \<Longrightarrow> \<not> Contains s old \<Longrightarrow> ReplaceAll s old new = s"
  by (induction s old new rule: ReplaceAll.induct) auto

lemma set_ReplaceAll: "set (ReplaceAll s old new) \<subseteq> set s \<union> set new"
proof (induction s old new rule: ReplaceAll.induct)
  case (1 old new)
  show ?case by auto
next
  case (2 c s old new)
  have "set (drop (length old) (c # s)) \<subseteq> set (c # s)"
    by (rule set_drop_subset)
  with 2 show ?case
    by (cases "old = []"; cases "HasPrefix (c # s) old") auto
qed

lemma ReplaceAll_single_removes: "c \<notin> set new \<Longrightarrow> c \<notin> set (ReplaceAll s [c] new)"
  by (induction s) auto

subsection \<open>Trimming\<close>

lemma rev_dropWhile_rev_split:
  "rev (dropWhile P (rev ys)) @ rev (takeWhile P (rev ys)) = ys"
proof -
  have "rev (dropWhile P (rev ys)) @ rev (takeWhile P (rev ys))
      = rev (takeWhile P (rev ys) @ dropWhile P (rev ys))"
    by (simp only: rev_append)
  also have "\<dots> = rev (rev ys)"
    by (simp only: takeWhile_dropWhile_id)
  finally show ?thesis
    by (simp only: rev_rev_ident)
qed

lemma TrimSpace_Nil [simp]: "TrimSpace [] = []"
  by (simp add: TrimSpace_def)

lemma set_TrimSpace: "set (TrimSpace s) \<subseteq> set s"
proof -
  have "set (TrimSpace s) \<subseteq> set (dropWhile isSpace s)"
    unfolding TrimSpace_def using set_dropWhileD [of _ isSpace "rev (dropWhile isSpace s)"]
    by auto
  then show ?thesis
    using set_dropWhileD [of _ isSpace s] by blast
qed

lemma TrimSpace_keeps:
  assumes "t \<noteq> []" "\<not> isSpace (hd t)" "\<not> isSpace (last t)"
  shows "TrimSpace t = t"
proof -
  from assms have "dropWhile isSpace t = t"
    by (cases t) auto
  moreover from assms have "dropWhile isSpace (rev t) = rev t"
    by (cases t rule: rev_cases) auto
  ultimately show ?thesis
    by (simp add: TrimSpace_def)
qed

lemma TrimSpace_ends:
  assumes "TrimSpace s \<noteq> []"
  shows "\<not> isSpace (hd (TrimSpace s)) \<and> \<not> isSpace (last (TrimSpace s))"
proof -
  define ys where "ys = dropWhile isSpace s"
  define z where "z = rev (dropWhile isSpace (rev ys))"
  have z: "TrimSpace s = z"
    by (simp add: TrimSpace_def z_def ys_def)
  with assms have nz: "z \<noteq> []" by simp
  then have "dropWhile isSpace (rev ys) \<noteq> []"
    by (simp add: z_def)
  then have "\<not> isSpace (hd (dropWhile isSpace (rev ys)))"
    by (rule hd_dropWhile)
  moreover have "hd (dropWhile isSpace (rev ys)) = last z"
    by (simp only: z_def last_rev)
  ultimately have l: "\<not> isSpace (last z)" by simp
  have ys: "ys = z @ rev (takeWhile isSpace (rev ys))"
    unfolding z_def by (rule rev_dropWhile_rev_split [symmetric])
  with nz have "ys \<noteq> []" by auto
  then have "\<not> isSpace (hd ys)"
    unfolding ys_def by (rule hd_dropWhile)
  moreover from ys nz have "hd ys = hd z"
    by (metis hd_append2)
  ultimately have "\<not> isSpace (hd z)" by simp
  with l z show ?thesis by simp
qed

lemma TrimSpace_idem: "TrimSpace (TrimSpace s) = TrimSpace s"
proof (cases "TrimSpace s = []")
  case True
  then show ?thesis by simp
next
  case False
  with TrimSpace_ends [OF False] show ?thesis
    by (intro TrimSpace_keeps) auto
qed

lemma Contains_TrimSpace: "Contains (TrimSpace s) p \<Longrightarrow> Contains s p"
proof -
  assume c: "Contains (TrimSpace s) p"
  define ys where "ys = dropWhile isSpace s"
  have ys: "ys = TrimSpace s @ rev (takeWhile isSpace (rev ys))"
    unfolding TrimSpace_def ys_def by (rule rev_dropWhile_rev_split [symmetric])
  have s: "s = takeWhile isSpace s @ ys"
    by (simp add: ys_def)
  from c obtain a b where "TrimSpace s = a @ p @ b"
    by (auto simp: Contains_iff)
  with ys s have "s = (takeWhile isSpace s @ a) @ p @ (b @ rev (takeWhile isSpace (rev ys)))"
    by (metis append.assoc)
  then show ?thesis
    unfolding Contains_iff by blast
qed

subsection \<open>The space-removal pass on text without double spaces\<close>

lemma set_rjs: "set (rjs p s) \<subseteq> set s"
  by (induction s arbitrary: p) auto

lemma rjs_keeps_nonspace: "r \<noteq> 0x20 \<Longrightarrow> rjs p (r # rs) = r # rjs (Some r) rs"
  by simp

lemma Contains_Cons_pair:
  "Contains (x # ys) [a, b] \<longleftrightarrow> (case ys of [] \<Rightarrow> False | y # _ \<Rightarrow> x = a \<and> y = b) \<or> Contains ys [a, b]"
  by (cases ys) simp_all

lemma rjs_no_double_space:
  "\<not> Contains s [0x20, 0x20] \<Longrightarrow> \<not> Contains (rjs p s) [0x20, 0x20]"
proof (induction s arbitrary: p)
  case Nil
  show ?case by simp
next
  case (Cons r rs)
  from Cons.prems have tl: "\<not> Contains rs [0x20, 0x20]"
    by (simp add: Contains_Cons_pair)
  then have ih: "\<not> Contains (rjs (Some r) rs) [0x20, 0x20]"
    by (rule Cons.IH)
  show ?case
  proof (cases "rjs p (r # rs) = rjs (Some r) rs")
    case True
    with ih show ?thesis by simp
  next
    case False
    then have kept: "rjs p (r # rs) = r # rjs (Some r) rs"
      by (simp split: if_splits)
    show ?thesis
    proof (cases "r = 0x20")
      case False
      with ih kept show ?thesis
        by (auto simp: HasPrefix_def)
    next
      case True
      show ?thesis
      proof (cases rs)
        case Nil
        with kept show ?thesis by simp
      next
        case (Cons r' rs')
        with Cons.prems True have "r' \<noteq> 0x20"
          by (simp add: Contains_Cons_pair)
        then have "rjs (Some r) (r' # rs') = r' # rjs (Some r') rs'"
          by (rule rjs_keeps_nonspace)
        with ih kept Cons \<open>r' \<noteq> 0x20\<close> show ?thesis
          by (simp add: Contains_Cons_pair)
      qed
    qed
  qed
qed

lemma rjs_last:
  "s \<noteq> [] \<Longrightarrow> last s \<noteq> 0x20 \<Longrightarrow> rjs p s \<noteq> [] \<and> last (rjs p s) = last s"
proof (induction s arbitrary: p)
  case Nil
  then show ?case by simp
next
  case (Cons r rs)
  show ?case
  proof (cases rs)
    case Nil
    with Cons.prems show ?thesis by simp
  next
    case (Cons r' rs')
    with Cons.prems have "rs \<noteq> []" "last rs \<noteq> 0x20" by auto
    then have "rjs (Some r) rs \<noteq> [] \<and> last (rjs (Some r) rs) = last rs"
      by (rule Cons.IH)
    with Cons show ?thesis by auto
  qed
qed

lemma isSpace_space [simp]: "isSpace 0x20"
  by (simp add: isSpace_def)

lemma TrimSpace_rjs:
  assumes "TrimSpace t = t"
  shows "TrimSpace (rjs None t) = rjs None t"
proof (cases t)
  case Nil
  then show ?thesis by simp
next
  case (Cons r rs)
  then have ne: "TrimSpace t \<noteq> []"
    using assms by simp
  from TrimSpace_ends [OF ne] assms
  have ends: "\<not> isSpace (hd t)" "\<not> isSpace (last t)" by simp_all
  from ends(1) Cons have "r \<noteq> 0x20" by auto
  then have hd: "rjs None t = r # rjs (Some r) rs"
    using Cons by simp
  from ends(2) have "last t \<noteq> 0x20" by auto
  with Cons have "last (rjs None t) = last t"
    using rjs_last [of t None] by simp
  with hd ends Cons show ?thesis
    by (intro TrimSpace_keeps) simp_all
qed

subsection \<open>What one application leaves behind\<close>

lemma collapseSpaces_no_double_space: "\<not> Contains (collapseSpaces s) [0x20, 0x20]"
  by (induction s rule: collapseSpaces.induct) (simp add: collapseSpaces.simps)

lemma collapseSpaces_absent:
  "\<not> Contains s [0x20, 0x20] \<Longrightarrow> collapseSpaces s = s"
  by (simp add: collapseSpaces.simps)

lemma set_collapseSpaces: "set (collapseSpaces s) \<subseteq> set s \<union> {0x20}"
proof (induction s rule: collapseSpaces.induct)
  case (1 s)
  show ?case
  proof (cases "Contains s [0x20, 0x20]")
    case True
    with 1 have "set (collapseSpaces (ReplaceAll s [0x20, 0x20] [0x20]))
        \<subseteq> set (ReplaceAll s [0x20, 0x20] [0x20]) \<union> {0x20}" by simp
    moreover have "set (ReplaceAll s [0x20, 0x20] [0x20]) \<subseteq> set s \<union> set [0x20]"
      by (rule set_ReplaceAll)
    moreover have "collapseSpaces s = collapseSpaces (ReplaceAll s [0x20, 0x20] [0x20])"
      using True by (simp add: collapseSpaces.simps)
    ultimately show ?thesis by auto
  next
    case False
    then show ?thesis by (auto simp: collapseSpaces.simps)
  qed
qed

text \<open>Auxiliary: the runes that no sanitized text contains: the replacement character, the
  full-width forms, the tab and the carriage return.\<close>

definition residue :: "rune \<Rightarrow> bool" where
  "residue r = (r = 0xFFFD \<or> (r \<ge> 0xFF01 \<and> r \<le> 0xFF5E) \<or> r = 0x09 \<or> r = 0x0D)"

lemma sanitizeText_no_residue: "r \<in> set (sanitizeText s) \<Longrightarrow> \<not> residue r"
proof -
  define t1 where "t1 = ReplaceAll s [0xFFFD] []"
  define t2 where "t2 = convertFullWidthToHalfWidth t1"
  define t3 where "t3 = removeJapaneseSpaces t2"
  define t4 where "t4 = ReplaceAll t3 [0x09] [0x20]"
  define t5 where "t5 = ReplaceAll t4 [0x0D, 0x0A] [0x0A]"
  define t6 where "t6 = ReplaceAll t5 [0x0D] [0x0A]"
  define t7 where "t7 = collapseSpaces t6"
  have san: "sanitizeText s = TrimSpace t7"
    by (simp add: sanitizeText_def t1_def t2_def t3_def t4_def t5_def t6_def t7_def)
  have 1: "0xFFFD \<notin> set t1"
    unfolding t1_def by (rule ReplaceAll_single_removes) simp
  have 2: "x \<noteq> 0xFFFD \<and> \<not> (x \<ge> 0xFF01 \<and> x \<le> 0xFF5E)" if "x \<in> set t2" for x
    using that 1 by (auto simp: t2_def convertFullWidthToHalfWidth_map)
  have 3: "set t3 \<subseteq> set t2"
    by (simp add: t3_def removeJapaneseSpaces_rjs set_rjs)
  have 4: "0x09 \<notin> set t4" "set t4 \<subseteq> set t3 \<union> {0x20}"
    unfolding t4_def using ReplaceAll_single_removes [of "0x09" "[0x20]" t3]
      set_ReplaceAll [of t3 "[0x09]" "[0x20]"] by simp_all
  have 5: "set t5 \<subseteq> set t4 \<union> {0x0A}"
    unfolding t5_def using set_ReplaceAll [of t4 "[0x0D, 0x0A]" "[0x0A]"] by simp
  have 6: "0x0D \<notin> set t6" "set t6 \<subseteq> set t5 \<union> {0x0A}"
    unfolding t6_def using ReplaceAll_single_removes [of "0x0D" "[0x0A]" t5]
      set_ReplaceAll [of t5 "[0x0D]" "[0x0A]"] by simp_all
  have 7: "set t7 \<subseteq> set t6 \<union> {0x20}"
    unfolding t7_def by (rule set_collapseSpaces)
  have clean6: "\<not> residue x" if "x \<in> set t6" for x
  proof -
    from that 6 have d: "x \<noteq> 0x0D" by auto
    from that 6 5 have "x = 0x0A \<or> x \<in> set t4" by auto
    then show ?thesis
    proof
      assume "x = 0x0A" then show ?thesis by (simp add: residue_def)
    next
      assume x4: "x \<in> set t4"
      with 4 have t: "x \<noteq> 0x09" by auto
      from x4 4 3 have "x = 0x20 \<or> x \<in> set t2" by auto
      then show ?thesis
      proof
        assume "x = 0x20" then show ?thesis by (simp add: residue_def)
      next
        assume "x \<in> set t2"
        with 2 d t show ?thesis by (auto simp: residue_def)
      qed
    qed
  qed
  assume "r \<in> set (sanitizeText s)"
  with san set_TrimSpace [of t7] have "r \<in> set t7" by auto
  with 7 have "r = 0x20 \<or> r \<in> set t6" by auto
  with clean6 show ?thesis by (auto simp: residue_def)
qed

lemma sanitizeText_no_double_space: "\<not> Contains (sanitizeText s) [0x20, 0x20]"
proof
  assume "Contains (sanitizeText s) [0x20, 0x20]"
  then have "Contains (collapseSpaces (ReplaceAll (ReplaceAll (ReplaceAll
      (removeJapaneseSpaces (convertFullWidthToHalfWidth (ReplaceAll s [0xFFFD] [])))
      [0x09] [0x20]) [0x0D, 0x0A] [0x0A]) [0x0D] [0x0A])) [0x20, 0x20]"
    unfolding sanitizeText_def Let_def by (rule Contains_TrimSpace)
  then show False
    by (simp add: collapseSpaces_no_double_space)
qed

lemma sanitizeText_trimmed: "TrimSpace (sanitizeText s) = sanitizeText s"
  by (simp add: sanitizeText_def Let_def TrimSpace_idem)

lemma sanitizeText_on_clean:
  assumes res: "\<And>r. r \<in> set t \<Longrightarrow> \<not> residue r"
    and nds: "\<not> Contains t [0x20, 0x20]"
    and trim: "TrimSpace t = t"
  shows "sanitizeText t = removeJapaneseSpaces t"
proof -
  define u where "u = removeJapaneseSpaces t"
  have u_sub: "set u \<subseteq> set t"
    by (simp add: u_def removeJapaneseSpaces_rjs set_rjs)
  have 1: "ReplaceAll t [0xFFFD] [] = t"
    using res by (intro ReplaceAll_absent) (auto simp: Contains_single residue_def)
  have 2: "convertFullWidthToHalfWidth t = t"
    unfolding convertFullWidthToHalfWidth_map using res
    by (intro map_idI) (auto simp: residue_def)
  have 4: "ReplaceAll u [0x09] [0x20] = u"
    using res u_sub by (intro ReplaceAll_absent) (auto simp: Contains_single residue_def)
  have 5: "ReplaceAll u [0x0D, 0x0A] [0x0A] = u"
    using res u_sub by (intro ReplaceAll_absent) (auto dest!: Contains_pair_fst simp: residue_def)
  have 6: "ReplaceAll u [0x0D] [0x0A] = u"
    using res u_sub by (intro ReplaceAll_absent) (auto simp: Contains_single residue_def)
  have 7: "collapseSpaces u = u"
    unfolding u_def removeJapaneseSpaces_rjs
    by (intro collapseSpaces_absent rjs_no_double_space nds)
  have 8: "TrimSpace u = u"
    unfolding u_def removeJapaneseSpaces_rjs by (rule TrimSpace_rjs [OF trim])
  show ?thesis
    unfolding sanitizeText_def Let_def 1 2
    unfolding u_def [symmetric] 4 5 6 7 8 ..
qed

lemma sanitizeText_twice:
  "sanitizeText (sanitizeText s) = removeJapaneseSpaces (sanitizeText s)"
  by (intro sanitizeText_on_clean sanitizeText_no_residue sanitizeText_no_double_space
      sanitizeText_trimmed)

subsection \<open>Which spaces the space-removal pass deletes\<close>

lemma concat_map_if_filter:
  "concat (map (\<lambda>i. if d i then [] else [f i]) xs) = map f (filter (\<lambda>i. \<not> d i) xs)"
  by (induction xs) simp_all

lemma removeJapaneseSpaces_filter:
  "removeJapaneseSpaces runes =
     map (\<lambda>i. runes ! i) (filter (\<lambda>i. \<not> deleted runes i) [0..<length runes])"
  by (simp add: removeJapaneseSpaces_concat concat_map_if_filter)

lemma removeJapaneseSpaces_fixed_iff:
  "removeJapaneseSpaces t = t \<longleftrightarrow> (\<forall>i. \<not> (i < length t \<and> deleted t i))"
proof
  assume fixed: "removeJapaneseSpaces t = t"
  show "\<forall>i. \<not> (i < length t \<and> deleted t i)"
  proof (intro allI notI)
    fix i
    assume "i < length t \<and> deleted t i"
    then have "i \<in> set [0..<length t]" "\<not> \<not> deleted t i" by simp_all
    then have "length (filter (\<lambda>i. \<not> deleted t i) [0..<length t]) < length [0..<length t]"
      by (rule length_filter_less)
    then have "length (removeJapaneseSpaces t) < length t"
      by (simp add: removeJapaneseSpaces_filter)
    with fixed show False by simp
  qed
next
  assume "\<forall>i. \<not> (i < length t \<and> deleted t i)"
  then have "filter (\<lambda>i. \<not> deleted t i) [0..<length t] = [0..<length t]"
    by (intro filter_True) auto
  then show "removeJapaneseSpaces t = t"
    by (simp add: removeJapaneseSpaces_filter map_nth)
qed

lemmas sanitize_eval =
  sanitizeText_def convertFullWidthToHalfWidth_def removeJapaneseSpaces_def
  collapseSpaces.simps TrimSpace_def isSpace_def isJapaneseChar_def HasPrefix_def upt_rec

lemma sanitizeText_cjk_space_cjk:
  "sanitizeText [0x65E5, 0x672C, 0x20, 0x8A9E] = [0x65E5, 0x672C, 0x8A9E]"
  by (simp add: sanitize_eval)

lemma sanitizeText_cjk_space_latin:
  "sanitizeText [0x65E5, 0x672C, 0x20, 0x41] = [0x65E5, 0x672C, 0x20, 0x41]"
  by (simp add: sanitize_eval)

lemma sanitizeText_cjk_tab_cjk:
  "sanitizeText [0x65E5, 0x09, 0x672C] = [0x65E5, 0x20, 0x672C]"
  by (simp add: sanitize_eval)

lemma sanitizeText_cjk_one_space_cjk:
  "sanitizeText [0x65E5, 0x20, 0x672C] = [0x65E5, 0x672C]"
  by (simp add: sanitize_eval)

text \<open>
  C6. The space-removal pass keeps, in order, every rune of its input except the plain spaces
  (U+0020) that have a rune before them and a rune after them which are both Japanese, where a
  rune is Japanese exactly when it lies in U+3040..U+309F, U+30A0..U+30FF or U+4E00..U+9FAF; a
  space with one such neighbour only is kept. The sanitizer turns U+65E5 U+672C SPACE U+8A9E
  into U+65E5 U+672C U+8A9E and leaves U+65E5 U+672C SPACE A as it is.
\<close>

theorem removeJapaneseSpaces_deletes_flanked_spaces:
  "removeJapaneseSpaces runes =
     map (\<lambda>i. runes ! i)
       (filter (\<lambda>i. \<not> (runes ! i = 0x20 \<and>
                        (0 < i \<and> isJapaneseChar (runes ! (i - 1))) \<and>
                        (i + 1 < length runes \<and> isJapaneseChar (runes ! (i + 1)))))
          [0..<length runes]) \<and>
   (isJapaneseChar r \<longleftrightarrow>
      (0x3040 \<le> r \<and> r \<le> 0x309F) \<or> (0x30A0 \<le> r \<and> r \<le> 0x30FF) \<or> (0x4E00 \<le> r \<and> r \<le> 0x9FAF)) \<and>
   sanitizeText [0x65E5, 0x672C, 0x20, 0x8A9E] = [0x65E5, 0x672C, 0x8A9E] \<and>
   sanitizeText [0x65E5, 0x672C, 0x20, 0x41] = [0x65E5, 0x672C, 0x20, 0x41]"
proof -
  have "(\<lambda>i. \<not> deleted runes i) =
      (\<lambda>i. \<not> (runes ! i = 0x20 \<and> (0 < i \<and> isJapaneseChar (runes ! (i - 1))) \<and>
                 (i + 1 < length runes \<and> isJapaneseChar (runes ! (i + 1)))))"
    by (rule ext) (auto simp: deleted_def)
  then have "removeJapaneseSpaces runes =
     map (\<lambda>i. runes ! i)
       (filter (\<lambda>i. \<not> (runes ! i = 0x20 \<and>
                        (0 < i \<and> isJapaneseChar (runes ! (i - 1))) \<and>
                        (i + 1 < length runes \<and> isJapaneseChar (runes ! (i + 1)))))
          [0..<length runes])"
    by (simp add: removeJapaneseSpaces_filter)
  moreover have "isJapaneseChar r \<longleftrightarrow>
      (0x3040 \<le> r \<and> r \<le> 0x309F) \<or> (0x30A0 \<le> r \<and> r \<le> 0x30FF) \<or> (0x4E00 \<le> r \<and> r \<le> 0x9FAF)"
    by (simp add: isJapaneseChar_def)
  ultimately show ?thesis
    using sanitizeText_cjk_space_cjk sanitizeText_cjk_space_latin by blast
qed

theorem removeJapaneseSpaces_deletes_flanked_spaces_witness:
  "removeJapaneseSpaces [0x65E5, 0x672C, 0x20, 0x8A9E] = [0x65E5, 0x672C, 0x8A9E] \<and>
   isJapaneseChar 0x8A9E \<and> \<not> isJapaneseChar 0x41"
  using removeJapaneseSpaces_deletes_flanked_spaces [of "[0x65E5, 0x672C, 0x20, 0x8A9E]" "0x8A9E"]
    removeJapaneseSpaces_deletes_flanked_spaces [of "[]" "0x41"]
  by (simp add: upt_rec isJapaneseChar_def)

text \<open>
  C1, the claim as stated, fails: the space-removal pass runs before tabs become spaces and
  before runs of spaces are collapsed, so U+65E5 TAB U+672C is sanitized to U+65E5 SPACE U+672C,
  and a second application removes that space.
\<close>

theorem sanitizeText_idempotent_counterexample:
  "sanitizeText (sanitizeText [0x65E5, 0x09, 0x672C]) \<noteq> sanitizeText [0x65E5, 0x09, 0x672C]"
  by (simp add: sanitizeText_cjk_tab_cjk sanitizeText_cjk_one_space_cjk)

text \<open>
  C1, amended. On every string (of valid UTF-8) a second application of the sanitizer does
  nothing but run the space-removal pass once more on the result of the first; so the sanitizer
  is idempotent at an input exactly when the sanitized text has no plain space standing between
  two Japanese runes.
\<close>

theorem sanitizeText_second_application:
  "sanitizeText (sanitizeText s) = removeJapaneseSpaces (sanitizeText s) \<and>
   (sanitizeText (sanitizeText s) = sanitizeText s \<longleftrightarrow>
      (\<forall>i. \<not> (0 < i \<and> i + 1 < length (sanitizeText s) \<and> sanitizeText s ! i = 0x20 \<and>
              isJapaneseChar (sanitizeText s ! (i - 1)) \<and>
              isJapaneseChar (sanitizeText s ! (i + 1)))))"
proof -
  have "(\<forall>i. \<not> (i < length t \<and> deleted t i)) \<longleftrightarrow>
      (\<forall>i. \<not> (0 < i \<and> i + 1 < length t \<and> t ! i = 0x20 \<and>
              isJapaneseChar (t ! (i - 1)) \<and> isJapaneseChar (t ! (i + 1))))" for t
    by (auto simp: deleted_def)
  then show ?thesis
    by (simp add: sanitizeText_twice removeJapaneseSpaces_fixed_iff)
qed

theorem sanitizeText_second_application_witness:
  "sanitizeText (sanitizeText [0x65E5, 0x672C, 0x20, 0x8A9E])
     = removeJapaneseSpaces (sanitizeText [0x65E5, 0x672C, 0x20, 0x8A9E]) \<and>
   sanitizeText (sanitizeText [0x65E5, 0x672C, 0x20, 0x8A9E])
     = sanitizeText [0x65E5, 0x672C, 0x20, 0x8A9E] \<and>
   sanitizeText (sanitizeText [0x65E5, 0x09, 0x672C])
     = removeJapaneseSpaces [0x65E5, 0x20, 0x672C]"
proof -
  have fixed: "sanitizeText [0x65E5, 0x672C, 0x8A9E] = [0x65E5, 0x672C, 0x8A9E]"
    by (simp add: sanitize_eval)
  show ?thesis
    using sanitizeText_second_application [of "[0x65E5, 0x672C, 0x20, 0x8A9E]"]
      sanitizeText_second_application [of "[0x65E5, 0x09, 0x672C]"]
    by (simp add: sanitizeText_cjk_space_cjk sanitizeText_cjk_tab_cjk fixed)
qed

section \<open>Properties of the PDF parser\<close>

lemma fold_keep_nonempty:
  "fold (\<lambda>t acc. if g t \<noteq> [] then acc @ [g t] else acc) xs acc0
     = acc0 @ filter (\<lambda>c. c \<noteq> []) (map g xs)"
  by (induction xs arbitrary: acc0) simp_all

text \<open>
  C8. The PDF parser visits the pages in the order 1..N and appends, for page \<open>i\<close>, nothing at
  all when the page is null, and otherwise the header \<^verbatim>\<open>## Page i\<close> with two line feeds, the
  sanitized text of the page's non-blank fragments joined by single spaces (nothing when there
  is no such fragment) and two more line feeds; the number in a header is the index of the page
  in the document, whatever pages before it were skipped.
\<close>

theorem pdf_pages_assembly:
  "PDFParser_ParseFromReader (Some pages) =
     Inr (concat (map (\<lambda>i.
            case pages ! (i - 1) of
              NullPage \<Rightarrow> []
            | Page texts \<Rightarrow>
                str ''## Page '' @ Itoa i @ [0x0A, 0x0A] @
                (if filter (\<lambda>c. c \<noteq> []) (map TrimSpace texts) = [] then []
                 else sanitizeText (Join (filter (\<lambda>c. c \<noteq> []) (map TrimSpace texts)) (str '' ''))) @
                [0x0A, 0x0A])
          [1..<length pages + 1]))"
proof -
  define sec where "sec = (\<lambda>i.
            case pages ! (i - 1) of
              NullPage \<Rightarrow> []
            | Page texts \<Rightarrow>
                str ''## Page '' @ Itoa i @ [0x0A, 0x0A] @
                (if filter (\<lambda>c. c \<noteq> []) (map TrimSpace texts) = [] then []
                 else sanitizeText (Join (filter (\<lambda>c. c \<noteq> []) (map TrimSpace texts)) (str '' ''))) @
                [0x0A, 0x0A])"
  have step: "(\<lambda>i result.
                  case pages ! (i - 1) of
                    NullPage \<Rightarrow> result
                  | Page texts \<Rightarrow>
                      (let result = result @ str ''## Page '' @ Itoa i @ [0x0A, 0x0A];
                           pageTexts = fold (\<lambda>t pageTexts.
                               let cleanedText = TrimSpace t in
                               if cleanedText \<noteq> [] then pageTexts @ [cleanedText] else pageTexts)
                             texts [];
                           result = (if length pageTexts > 0
                                     then (let pageContent = Join pageTexts (str '' '');
                                               sanitizedContent = sanitizeText pageContent
                                           in result @ sanitizedContent)
                                     else result)
                       in result @ [0x0A, 0x0A]))
      = (\<lambda>i result. result @ sec i)"
    by (intro ext) (simp add: sec_def fold_keep_nonempty Let_def split: pdf_Page.splits)
  show ?thesis
    unfolding PDFParser_ParseFromReader_def option.case Let_def [of "length pages"] step
    by (simp add: fold_append_concat sec_def)
qed

theorem pdf_pages_assembly_witness:
  "PDFParser_ParseFromReader (Some [Page [str ''Hi'', str ''  '', str ''there ''], NullPage, Page []])
     = Inr (str ''## Page 1'' @ [0x0A, 0x0A] @ str ''Hi there'' @ [0x0A, 0x0A] @
            str ''## Page 3'' @ [0x0A, 0x0A] @ [0x0A, 0x0A])"
  using pdf_pages_assembly [of "[Page [str ''Hi'', str ''  '', str ''there ''], NullPage, Page []]"]
  by (simp add: Itoa.simps str_def sanitize_eval)

section \<open>Properties of the spreadsheet parser\<close>

text \<open>Auxiliary, loop-free forms of the two loops of \<^verbatim>\<open>extractSheets\<close>: the text of the rows
  that could be read, and the results for the sheets whose rows could be obtained.\<close>

definition rowsText :: "xl_row list \<Rightarrow> gostring" where
  "rowsText rs =
     concat (map (\<lambda>row. case row of None \<Rightarrow> [] | Some cells \<Rightarrow> Join cells (str '' | '') @ [0x0A]) rs)"

definition readableSheets :: "xl_sheet list \<Rightarrow> sheetContent list" where
  "readableSheets sheetList =
     concat (map (\<lambda>(sheet, rows).
       case rows of None \<Rightarrow> [] | Some rs \<Rightarrow> [\<lparr>name = sheet, content = rowsText rs\<rparr>]) sheetList)"

lemma rows_loop:
  "fold (\<lambda>row buf. case row of None \<Rightarrow> buf | Some cells \<Rightarrow> buf @ Join cells (str '' | '') @ [0x0A]) rs []
     = rowsText rs"
proof -
  have "(\<lambda>row buf. case row of None \<Rightarrow> buf | Some cells \<Rightarrow> buf @ Join cells (str '' | '') @ [0x0A])
      = (\<lambda>row buf. buf @ (case row of None \<Rightarrow> [] | Some cells \<Rightarrow> Join cells (str '' | '') @ [0x0A]))"
    by (intro ext) (simp split: option.splits)
  then show ?thesis
    by (simp add: fold_append_concat rowsText_def)
qed

lemma extractSheets_loop:
  "extractSheets (Some sheetList) =
     (if readableSheets sheetList = [] then Inl NoDataFound else Inr (readableSheets sheetList))"
proof -
  have "(\<lambda>(sheet, rows) results.
                 case rows of
                   None \<Rightarrow> results
                 | Some rs \<Rightarrow>
                     (let buf = fold (\<lambda>row buf.
                            case row of
                              None \<Rightarrow> buf
                            | Some cells \<Rightarrow> buf @ Join cells (str '' | '') @ [0x0A])
                          rs []
                      in results @ [\<lparr>name = sheet, content = buf\<rparr>]))
      = (\<lambda>x results. results @ (case x of (sheet, rows) \<Rightarrow>
           (case rows of None \<Rightarrow> [] | Some rs \<Rightarrow> [\<lparr>name = sheet, content = rowsText rs\<rparr>])))"
    by (intro ext) (simp add: rows_loop split: prod.splits option.splits)
  then show ?thesis
    by (simp add: extractSheets_def fold_append_concat readableSheets_def)
qed

lemma ExcelParser_ParseFromReader_loop:
  "ExcelParser_ParseFromReader (Some sheetList) =
     (if readableSheets sheetList = [] then Inl NoDataFound
      else Inr (concat (map (\<lambda>sheet.
             (str ''# Sheet '' @ name sheet @ [0x0A]) @ content sheet
               @ [0x0A, 0x2D, 0x2D, 0x2D, 0x0A, 0x0A]) (readableSheets sheetList))))"
proof (cases "readableSheets sheetList")
  case Nil
  then show ?thesis
    by (simp add: ExcelParser_ParseFromReader_def extractSheets_loop)
next
  case (Cons s ss)
  then show ?thesis
    by (simp add: ExcelParser_ParseFromReader_def extractSheets_loop fold_append_concat)
qed

lemma readableSheets_empty_iff:
  "readableSheets sheetList = [] \<longleftrightarrow> (\<forall>sheet \<in> set sheetList. snd sheet = None)"
  by (induction sheetList) (auto simp: readableSheets_def split: option.splits)

lemma readableSheets_member:
  "(sheet, Some rs) \<in> set sheetList \<Longrightarrow>
     \<lparr>name = sheet, content = rowsText rs\<rparr> \<in> set (readableSheets sheetList)"
  by (induction sheetList) (auto simp: readableSheets_def split: option.splits)

lemma map_name_readableSheets:
  "map name (readableSheets sheetList)
     = map fst (filter (\<lambda>(sheet, rows). rows \<noteq> None) sheetList)"
  by (induction sheetList) (auto simp: readableSheets_def split: option.splits)

lemma Contains_concat_member:
  "x \<in> set xs \<Longrightarrow> Contains (concat (map (\<lambda>y. g y @ h y) xs)) (g x)"
proof -
  assume "x \<in> set xs"
  then obtain as bs where "xs = as @ x # bs"
    by (auto simp: in_set_conv_decomp)
  then have "concat (map (\<lambda>y. g y @ h y) xs)
      = concat (map (\<lambda>y. g y @ h y) as) @ g x @ (h x @ concat (map (\<lambda>y. g y @ h y) bs))"
    by simp
  then show ?thesis
    unfolding Contains_iff by blast
qed

lemma pages_lookup_absent:
  "k \<notin> name ` set sheets \<Longrightarrow>
     fold (\<lambda>sheet result. result(name sheet \<mapsto> content sheet)) sheets m k = m k"
  by (induction sheets arbitrary: m) auto

lemma pages_lookup:
  "distinct (map name sheets) \<Longrightarrow> sheet \<in> set sheets \<Longrightarrow>
     fold (\<lambda>sheet result. result(name sheet \<mapsto> content sheet)) sheets m (name sheet)
       = Some (content sheet)"
proof (induction sheets arbitrary: m)
  case Nil
  then show ?case by simp
next
  case (Cons x xs)
  show ?case
  proof (cases "sheet = x")
    case True
    with Cons.prems have "name x \<notin> name ` set xs" by auto
    then have "fold (\<lambda>sheet result. result(name sheet \<mapsto> content sheet)) xs
        (m(name x \<mapsto> content x)) (name x) = (m(name x \<mapsto> content x)) (name x)"
      by (rule pages_lookup_absent)
    then have "fold (\<lambda>sheet result. result(name sheet \<mapsto> content sheet)) xs
        (m(name x \<mapsto> content x)) (name x) = Some (content x)"
      by (simp only: fun_upd_same)
    then show ?thesis
      unfolding True by (simp only: fold_simps)
  next
    case False
    with Cons show ?thesis by simp
  qed
qed

text \<open>
  C3, the claim as stated, fails: a workbook of two sheets that both have no rows is extracted
  successfully, as the two headers with empty contents.
\<close>

theorem excel_all_sheets_empty_counterexample:
  "extractSheets (Some [(str ''A'', Some []), (str ''B'', Some [])])
     = Inr [\<lparr>name = str ''A'', content = []\<rparr>, \<lparr>name = str ''B'', content = []\<rparr>] \<and>
   ExcelParser_ParseFromReader (Some [(str ''A'', Some []), (str ''B'', Some [])])
     = Inr (str ''# Sheet A'' @ [0x0A, 0x0A] @ str ''---'' @ [0x0A, 0x0A] @
            str ''# Sheet B'' @ [0x0A, 0x0A] @ str ''---'' @ [0x0A, 0x0A])"
  by (simp add: ExcelParser_ParseFromReader_def extractSheets_def str_def)

text \<open>
  C3, amended. Extraction from an opened workbook fails, with the ``no data found'' error,
  exactly when the rows of no sheet can be obtained (in particular when there is no sheet); it
  does not fail because the sheets are empty. When the rows of at least one sheet can be
  obtained it succeeds, and the output contains the header \<^verbatim>\<open># Sheet <name>\<close> of every sheet
  whose rows could be obtained, the sheets without rows included.
\<close>

theorem excel_no_data_found:
  "(ExcelParser_ParseFromReader (Some sheetList) = Inl NoDataFound \<longleftrightarrow>
      (\<forall>sheet \<in> set sheetList. snd sheet = None)) \<and>
   ((\<exists>sheet \<in> set sheetList. snd sheet \<noteq> None) \<longrightarrow>
      (\<exists>out. ExcelParser_ParseFromReader (Some sheetList) = Inr out \<and>
         (\<forall>sheet \<in> set sheetList. snd sheet \<noteq> None \<longrightarrow>
            Contains out (str ''# Sheet '' @ fst sheet @ [0x0A]))))"
proof (intro conjI impI)
  show "ExcelParser_ParseFromReader (Some sheetList) = Inl NoDataFound \<longleftrightarrow>
      (\<forall>sheet \<in> set sheetList. snd sheet = None)"
    by (simp add: ExcelParser_ParseFromReader_loop readableSheets_empty_iff)
next
  assume "\<exists>sheet \<in> set sheetList. snd sheet \<noteq> None"
  then have ne: "readableSheets sheetList \<noteq> []"
    by (simp add: readableSheets_empty_iff)
  define out where "out = concat (map (\<lambda>sheet.
             (str ''# Sheet '' @ name sheet @ [0x0A]) @ content sheet
               @ [0x0A, 0x2D, 0x2D, 0x2D, 0x0A, 0x0A]) (readableSheets sheetList))"
  have res: "ExcelParser_ParseFromReader (Some sheetList) = Inr out"
    using ne by (simp add: ExcelParser_ParseFromReader_loop out_def)
  have "Contains out (str ''# Sheet '' @ fst sheet @ [0x0A])"
    if "sheet \<in> set sheetList" "snd sheet \<noteq> None" for sheet
  proof -
    from that(2) obtain rs where "sheet = (fst sheet, Some rs)"
      by (cases sheet) auto
    with that(1) have "(fst sheet, Some rs) \<in> set sheetList"
      by simp
    then have "\<lparr>name = fst sheet, content = rowsText rs\<rparr> \<in> set (readableSheets sheetList)"
      by (rule readableSheets_member)
    from Contains_concat_member [OF this,
        of "\<lambda>sheet. str ''# Sheet '' @ name sheet @ [0x0A]"
           "\<lambda>sheet. content sheet @ [0x0A, 0x2D, 0x2D, 0x2D, 0x0A, 0x0A]"]
    show ?thesis
      by (simp add: out_def)
  qed
  with res show "\<exists>out. ExcelParser_ParseFromReader (Some sheetList) = Inr out \<and>
         (\<forall>sheet \<in> set sheetList. snd sheet \<noteq> None \<longrightarrow>
            Contains out (str ''# Sheet '' @ fst sheet @ [0x0A]))"
    by blast
qed

theorem excel_no_data_found_witness:
  "ExcelParser_ParseFromReader (Some [(str ''A'', Some [Some [str ''x'', str ''y'']]), (str ''B'', Some [])])
     \<noteq> Inl NoDataFound \<and>
   (\<exists>out. ExcelParser_ParseFromReader
             (Some [(str ''A'', Some [Some [str ''x'', str ''y'']]), (str ''B'', Some [])]) = Inr out \<and>
      Contains out (str ''# Sheet '' @ str ''A'' @ [0x0A]) \<and>
      Contains out (str ''# Sheet '' @ str ''B'' @ [0x0A])) \<and>
   ExcelParser_ParseFromReader (Some [(str ''A'', None), (str ''B'', None)]) = Inl NoDataFound"
  using excel_no_data_found [of "[(str ''A'', Some [Some [str ''x'', str ''y'']]), (str ''B'', Some [])]"]
    excel_no_data_found [of "[(str ''A'', None), (str ''B'', None)]"]
  by simp

text \<open>
  C4, the claim as stated, fails: the section map is a Go map, which has no order. Two
  workbooks with the same sheets in opposite orders give the same map and different whole
  texts, so the whole text is not determined by the map.
\<close>

theorem excel_pages_order_counterexample:
  "ExcelParser_ParseWithPages (Some [(str ''A'', Some [Some [str ''1'']]), (str ''B'', Some [Some [str ''2'']])])
     = ExcelParser_ParseWithPages (Some [(str ''B'', Some [Some [str ''2'']]), (str ''A'', Some [Some [str ''1'']])]) \<and>
   ExcelParser_ParseFromReader (Some [(str ''A'', Some [Some [str ''1'']]), (str ''B'', Some [Some [str ''2'']])])
     \<noteq> ExcelParser_ParseFromReader (Some [(str ''B'', Some [Some [str ''2'']]), (str ''A'', Some [Some [str ''1'']])])"
  by (simp add: ExcelParser_ParseWithPages_def ExcelParser_ParseFromReader_def extractSheets_def
      str_def fun_upd_twist)

text \<open>
  C4, amended. For a workbook whose sheet names are distinct, the section-map operation fails
  exactly when the whole-text operation fails, with the same error; otherwise its map sends the
  name of every sheet whose rows could be obtained to the text of that sheet's rows, and the
  whole text is the concatenation, over these sheets in workbook order (an order the map itself
  does not record), of \<^verbatim>\<open># Sheet <name>\<close>, a line feed, the map's value at the name, and the
  separator of a line feed, \<^verbatim>\<open>---\<close> and two line feeds.
\<close>

theorem excel_pages_round_trip:
  assumes "distinct (map fst sheetList)"
  shows "ExcelParser_ParseFromReader (Some sheetList) =
     (case ExcelParser_ParseWithPages (Some sheetList) of
        Inl err \<Rightarrow> Inl err
      | Inr result \<Rightarrow>
          Inr (concat (map (\<lambda>sheet.
                 (str ''# Sheet '' @ sheet @ [0x0A]) @
                 (case result sheet of None \<Rightarrow> [] | Some text \<Rightarrow> text) @
                 [0x0A, 0x2D, 0x2D, 0x2D, 0x0A, 0x0A])
               (map fst (filter (\<lambda>(sheet, rows). rows \<noteq> None) sheetList)))))"
proof (cases "readableSheets sheetList = []")
  case True
  then show ?thesis
    by (simp add: ExcelParser_ParseFromReader_loop ExcelParser_ParseWithPages_def extractSheets_loop)
next
  case False
  define result where
    "result = fold (\<lambda>sheet result. result(name sheet \<mapsto> content sheet)) (readableSheets sheetList) Map.empty"
  have pages: "ExcelParser_ParseWithPages (Some sheetList) = Inr result"
    using False by (simp add: ExcelParser_ParseWithPages_def extractSheets_loop result_def)
  have "distinct (map fst (filter (\<lambda>(sheet, rows). rows \<noteq> None) sheetList))"
    using assms by (rule distinct_map_filter)
  then have dist: "distinct (map name (readableSheets sheetList))"
    by (simp add: map_name_readableSheets)
  have look: "result (name sheet) = Some (content sheet)"
    if "sheet \<in> set (readableSheets sheetList)" for sheet
    unfolding result_def using dist that by (rule pages_lookup)
  have "concat (map (\<lambda>sheet.
             (str ''# Sheet '' @ name sheet @ [0x0A]) @ content sheet
               @ [0x0A, 0x2D, 0x2D, 0x2D, 0x0A, 0x0A]) (readableSheets sheetList))
      = concat (map (\<lambda>sheet.
             (str ''# Sheet '' @ name sheet @ [0x0A]) @
             (case result (name sheet) of None \<Rightarrow> [] | Some text \<Rightarrow> text)
               @ [0x0A, 0x2D, 0x2D, 0x2D, 0x0A, 0x0A]) (readableSheets sheetList))"
    by (intro arg_cong [where f = concat] map_cong refl) (simp add: look)
  also have "\<dots> = concat (map (\<lambda>sheet.
                 (str ''# Sheet '' @ sheet @ [0x0A]) @
                 (case result sheet of None \<Rightarrow> [] | Some text \<Rightarrow> text) @
                 [0x0A, 0x2D, 0x2D, 0x2D, 0x0A, 0x0A])
               (map name (readableSheets sheetList)))"
    by (simp add: comp_def)
  finally show ?thesis
    using False by (simp add: ExcelParser_ParseFromReader_loop pages map_name_readableSheets)
qed

theorem excel_pages_round_trip_witness:
  "distinct (map fst [(str ''A'', Some [Some [str ''1'']]), (str ''E'', Some []), (str ''B'', None)]) \<and>
   ExcelParser_ParseFromReader
       (Some [(str ''A'', Some [Some [str ''1'']]), (str ''E'', Some []), (str ''B'', None)])
     = Inr (str ''# Sheet A'' @ [0x0A] @ str ''1'' @ [0x0A, 0x0A] @ str ''---'' @ [0x0A, 0x0A] @
            str ''# Sheet E'' @ [0x0A, 0x0A] @ str ''---'' @ [0x0A, 0x0A])"
proof -
  have d: "distinct (map fst [(str ''A'', Some [Some [str ''1'']]), (str ''E'', Some []), (str ''B'', None :: xl_row list option)])"
    by (simp add: str_def)
  show ?thesis
    using d excel_pages_round_trip [OF d]
    by (simp add: ExcelParser_ParseWithPages_def extractSheets_def str_def)
qed

section \<open>Properties of the presentation parser\<close>

text \<open>Auxiliary, loop-free form of the loop over the archive: the slides that are decoded, in
  archive order, and the text appended for the slide that is given the number \<open>slideNum\<close>.\<close>

definition decodedSlides :: "pptx_File list \<Rightarrow> Slide list" where
  "decodedSlides files =
     concat (map (\<lambda>(fName, payload).
       if HasPrefix fName (str ''ppt/slides/slide'') \<and> HasSuffix fName (str ''.xml'') \<and>
          \<not> Contains fName (str ''Layout'') \<and> \<not> Contains fName (str ''Master'')
       then (case payload of Decoded slide \<Rightarrow> [slide] | _ \<Rightarrow> [])
       else []) files)"

definition slideSection :: "nat \<Rightarrow> Slide \<Rightarrow> gostring" where
  "slideSection slideNum slide =
     str ''## Slide '' @ Itoa slideNum @ [0x0A] @
     (if extractTextFromSlide slide \<noteq> [] then extractTextFromSlide slide
      else str ''(No text found)'') @ [0x0A, 0x0A]"

lemma PPTXParser_ParseFromReader_loop:
  "PPTXParser_ParseFromReader (Some files) =
     Inr (concat (map (\<lambda>(slideNum, slide). slideSection slideNum slide)
            (enumerate 1 (decodedSlides files))))"
proof -
  define step :: "pptx_File \<Rightarrow> gostring \<times> nat \<Rightarrow> gostring \<times> nat" where
    "step = (\<lambda>(fName, payload) (allText, slideNum).
                 if HasPrefix fName (str ''ppt/slides/slide'') \<and>
                    HasSuffix fName (str ''.xml'') \<and>
                    \<not> Contains fName (str ''Layout'') \<and>
                    \<not> Contains fName (str ''Master'')
                 then (case payload of
                         OpenFails \<Rightarrow> (allText, slideNum)
                       | ReadFails \<Rightarrow> (allText, slideNum)
                       | UnmarshalFails \<Rightarrow> (allText, slideNum)
                       | Decoded slide \<Rightarrow>
                           (let extractedText = extractTextFromSlide slide;
                                allText = allText @ str ''## Slide '' @ Itoa slideNum @ [0x0A];
                                allText = (if length extractedText > 0
                                           then allText @ extractedText
                                           else allText @ str ''(No text found)'');
                                allText = allText @ [0x0A, 0x0A]
                            in (allText, slideNum + 1)))
                 else (allText, slideNum))"
  have loop: "fold step files (allText, slideNum) =
      (allText @ concat (map (\<lambda>(slideNum, slide). slideSection slideNum slide)
                   (enumerate slideNum (decodedSlides files))),
       slideNum + length (decodedSlides files))" for allText slideNum
  proof (induction files arbitrary: allText slideNum)
    case Nil
    show ?case by (simp add: decodedSlides_def)
  next
    case (Cons f files)
    obtain fName payload where f: "f = (fName, payload)"
      by (cases f)
    show ?case
    proof (cases "HasPrefix fName (str ''ppt/slides/slide'') \<and> HasSuffix fName (str ''.xml'') \<and>
        \<not> Contains fName (str ''Layout'') \<and> \<not> Contains fName (str ''Master'')")
      case False
      then have "step f (allText, slideNum) = (allText, slideNum)"
        "decodedSlides (f # files) = decodedSlides files"
        by (auto simp: step_def f decodedSlides_def)
      with Cons.IH show ?thesis by simp
    next
      case slideFile: True
      show ?thesis
      proof (cases payload)
        case (Decoded slide)
        with slideFile have "step f (allText, slideNum)
            = (allText @ slideSection slideNum slide, slideNum + 1)"
          "decodedSlides (f # files) = slide # decodedSlides files"
          by (auto simp: step_def f decodedSlides_def slideSection_def Let_def)
        with Cons.IH [of "allText @ slideSection slideNum slide" "slideNum + 1"]
        show ?thesis by simp
      next
        case OpenFails
        with slideFile have "step f (allText, slideNum) = (allText, slideNum)"
          "decodedSlides (f # files) = decodedSlides files"
          by (auto simp: step_def f decodedSlides_def)
        with Cons.IH show ?thesis by simp
      next
        case ReadFails
        with slideFile have "step f (allText, slideNum) = (allText, slideNum)"
          "decodedSlides (f # files) = decodedSlides files"
          by (auto simp: step_def f decodedSlides_def)
        with Cons.IH show ?thesis by simp
      next
        case UnmarshalFails
        with slideFile have "step f (allText, slideNum) = (allText, slideNum)"
          "decodedSlides (f # files) = decodedSlides files"
          by (auto simp: step_def f decodedSlides_def)
        with Cons.IH show ?thesis by simp
      qed
    qed
  qed
  have "PPTXParser_ParseFromReader (Some files) = Inr (fst (fold step files ([], 1)))"
    by (simp add: PPTXParser_ParseFromReader_def step_def)
  then show ?thesis
    by (simp add: loop)
qed

lemma decodedSlides_filter:
  "(\<And>fName slide. (fName, Decoded slide) \<in> set files \<Longrightarrow>
      HasPrefix fName (str ''ppt/slides/slide'') \<and> HasSuffix fName (str ''.xml'') \<and>
      \<not> Contains fName (str ''Layout'') \<and> \<not> Contains fName (str ''Master'') \<Longrightarrow>
      keep (fName, Decoded slide)) \<Longrightarrow>
   decodedSlides (filter keep files) = decodedSlides files"
proof (induction files)
  case Nil
  show ?case by simp
next
  case (Cons f files)
  then have ih: "decodedSlides (filter keep files) = decodedSlides files"
    by simp
  have split: "decodedSlides (g # gs) = decodedSlides [g] @ decodedSlides gs" for g gs
    by (simp add: decodedSlides_def)
  show ?case
  proof (cases "keep f")
    case True
    with ih show ?thesis
      by (simp add: split [of f "filter keep files"] split [of f files])
  next
    case False
    with Cons.prems [of "fst f"] have "decodedSlides [f] = []"
      by (cases f) (auto simp: decodedSlides_def split: slide_payload.splits)
    with False ih show ?thesis
      by (simp add: split [of f files])
  qed
qed

text \<open>
  C5. The presentation parser numbers, from 1 and in archive order, exactly the entries whose
  name starts with \<^verbatim>\<open>ppt/slides/slide\<close>, ends in \<^verbatim>\<open>.xml\<close> and contains neither \<^verbatim>\<open>Layout\<close> nor
  \<^verbatim>\<open>Master\<close> (and that decode as a slide), and writes one \<^verbatim>\<open>## Slide N\<close> section for each: the
  entries that do not qualify can be dropped from the archive without changing the output. An
  archive with the entries \<^verbatim>\<open>slide1.xml\<close>, \<^verbatim>\<open>slide2.xml\<close> and \<^verbatim>\<open>slideLayout1.xml\<close> under the slide
  path gives the two sections of the two slides, whatever the layout entry holds.
\<close>

theorem pptx_slide_entries:
  "PPTXParser_ParseFromReader (Some files) =
     Inr (concat (map (\<lambda>(slideNum, slide).
            str ''## Slide '' @ Itoa slideNum @ [0x0A] @
            (if extractTextFromSlide slide \<noteq> [] then extractTextFromSlide slide
             else str ''(No text found)'') @ [0x0A, 0x0A])
          (enumerate 1 (concat (map (\<lambda>(fName, payload).
             if HasPrefix fName (str ''ppt/slides/slide'') \<and> HasSuffix fName (str ''.xml'') \<and>
                \<not> Contains fName (str ''Layout'') \<and> \<not> Contains fName (str ''Master'')
             then (case payload of Decoded slide \<Rightarrow> [slide] | _ \<Rightarrow> [])
             else []) files))))) \<and>
   PPTXParser_ParseFromReader (Some files) =
     PPTXParser_ParseFromReader (Some (filter (\<lambda>(fName, payload).
        HasPrefix fName (str ''ppt/slides/slide'') \<and> HasSuffix fName (str ''.xml'') \<and>
        \<not> Contains fName (str ''Layout'') \<and> \<not> Contains fName (str ''Master'')) files)) \<and>
   PPTXParser_ParseFromReader
       (Some [(str ''ppt/slides/slide1.xml'', Decoded slide1),
              (str ''ppt/slides/slide2.xml'', Decoded slide2),
              (str ''ppt/slides/slideLayout1.xml'', layout)]) =
     Inr (str ''## Slide 1'' @ [0x0A] @
          (if extractTextFromSlide slide1 \<noteq> [] then extractTextFromSlide slide1
           else str ''(No text found)'') @ [0x0A, 0x0A] @
          str ''## Slide 2'' @ [0x0A] @
          (if extractTextFromSlide slide2 \<noteq> [] then extractTextFromSlide slide2
           else str ''(No text found)'') @ [0x0A, 0x0A])"
proof (intro conjI)
  show "PPTXParser_ParseFromReader (Some files) =
     Inr (concat (map (\<lambda>(slideNum, slide).
            str ''## Slide '' @ Itoa slideNum @ [0x0A] @
            (if extractTextFromSlide slide \<noteq> [] then extractTextFromSlide slide
             else str ''(No text found)'') @ [0x0A, 0x0A])
          (enumerate 1 (concat (map (\<lambda>(fName, payload).
             if HasPrefix fName (str ''ppt/slides/slide'') \<and> HasSuffix fName (str ''.xml'') \<and>
                \<not> Contains fName (str ''Layout'') \<and> \<not> Contains fName (str ''Master'')
             then (case payload of Decoded slide \<Rightarrow> [slide] | _ \<Rightarrow> [])
             else []) files)))))"
    unfolding PPTXParser_ParseFromReader_loop decodedSlides_def slideSection_def ..
next
  have "decodedSlides (filter (\<lambda>(fName, payload).
        HasPrefix fName (str ''ppt/slides/slide'') \<and> HasSuffix fName (str ''.xml'') \<and>
        \<not> Contains fName (str ''Layout'') \<and> \<not> Contains fName (str ''Master'')) files)
      = decodedSlides files"
    by (rule decodedSlides_filter) simp
  then show "PPTXParser_ParseFromReader (Some files) =
     PPTXParser_ParseFromReader (Some (filter (\<lambda>(fName, payload).
        HasPrefix fName (str ''ppt/slides/slide'') \<and> HasSuffix fName (str ''.xml'') \<and>
        \<not> Contains fName (str ''Layout'') \<and> \<not> Contains fName (str ''Master'')) files))"
    by (simp add: PPTXParser_ParseFromReader_loop)
next
  have layout: "Contains (str ''ppt/slides/slideLayout1.xml'') (str ''Layout'')"
    by (simp add: str_def HasPrefix_def)
  have s1: "HasPrefix (str ''ppt/slides/slide1.xml'') (str ''ppt/slides/slide'') \<and>
      HasSuffix (str ''ppt/slides/slide1.xml'') (str ''.xml'') \<and>
      \<not> Contains (str ''ppt/slides/slide1.xml'') (str ''Layout'') \<and>
      \<not> Contains (str ''ppt/slides/slide1.xml'') (str ''Master'')"
    by (simp add: str_def HasPrefix_def HasSuffix_def)
  have s2: "HasPrefix (str ''ppt/slides/slide2.xml'') (str ''ppt/slides/slide'') \<and>
      HasSuffix (str ''ppt/slides/slide2.xml'') (str ''.xml'') \<and>
      \<not> Contains (str ''ppt/slides/slide2.xml'') (str ''Layout'') \<and>
      \<not> Contains (str ''ppt/slides/slide2.xml'') (str ''Master'')"
    by (simp add: str_def HasPrefix_def HasSuffix_def)
  have "decodedSlides [(str ''ppt/slides/slide1.xml'', Decoded slide1),
              (str ''ppt/slides/slide2.xml'', Decoded slide2),
              (str ''ppt/slides/slideLayout1.xml'', layout)] = [slide1, slide2]"
    using layout s1 s2 by (simp add: decodedSlides_def)
  moreover have "Itoa (Suc 0) = str ''1''" "Itoa (Suc (Suc 0)) = str ''2''"
    by (simp_all add: Itoa.simps str_def)
  ultimately show "PPTXParser_ParseFromReader
       (Some [(str ''ppt/slides/slide1.xml'', Decoded slide1),
              (str ''ppt/slides/slide2.xml'', Decoded slide2),
              (str ''ppt/slides/slideLayout1.xml'', layout)]) =
     Inr (str ''## Slide 1'' @ [0x0A] @
          (if extractTextFromSlide slide1 \<noteq> [] then extractTextFromSlide slide1
           else str ''(No text found)'') @ [0x0A, 0x0A] @
          str ''## Slide 2'' @ [0x0A] @
          (if extractTextFromSlide slide2 \<noteq> [] then extractTextFromSlide slide2
           else str ''(No text found)'') @ [0x0A, 0x0A])"
    by (simp add: PPTXParser_ParseFromReader_loop slideSection_def str_def)
qed

theorem pptx_slide_entries_witness:
  "PPTXParser_ParseFromReader
       (Some [(str ''ppt/slides/slide1.xml'',
                 Decoded \<lparr>SlideData = \<lparr>Shapes = [\<lparr>TextBody = \<lparr>Paragraphs =
                   [\<lparr>Runs = [\<lparr>Text = str ''a''\<rparr>, \<lparr>Text = str ''b''\<rparr>]\<rparr>, \<lparr>Runs = []\<rparr>,
                    \<lparr>Runs = [\<lparr>Text = str ''c''\<rparr>]\<rparr>]\<rparr>\<rparr>]\<rparr>\<rparr>),
              (str ''ppt/slides/slide2.xml'', Decoded \<lparr>SlideData = \<lparr>Shapes = []\<rparr>\<rparr>),
              (str ''ppt/slides/slideLayout1.xml'',
                 Decoded \<lparr>SlideData = \<lparr>Shapes = [\<lparr>TextBody = \<lparr>Paragraphs =
                   [\<lparr>Runs = [\<lparr>Text = str ''layout text''\<rparr>]\<rparr>]\<rparr>\<rparr>]\<rparr>\<rparr>)]) =
     Inr (str ''## Slide 1'' @ [0x0A] @ str ''ab'' @ [0x0A] @ str ''c'' @ [0x0A, 0x0A] @
          str ''## Slide 2'' @ [0x0A] @ str ''(No text found)'' @ [0x0A, 0x0A])"
  using pptx_slide_entries [of "[]"
      "\<lparr>SlideData = \<lparr>Shapes = [\<lparr>TextBody = \<lparr>Paragraphs =
                   [\<lparr>Runs = [\<lparr>Text = str ''a''\<rparr>, \<lparr>Text = str ''b''\<rparr>]\<rparr>, \<lparr>Runs = []\<rparr>,
                    \<lparr>Runs = [\<lparr>Text = str ''c''\<rparr>]\<rparr>]\<rparr>\<rparr>]\<rparr>\<rparr>"
      "\<lparr>SlideData = \<lparr>Shapes = []\<rparr>\<rparr>"
      "Decoded \<lparr>SlideData = \<lparr>Shapes = [\<lparr>TextBody = \<lparr>Paragraphs =
                   [\<lparr>Runs = [\<lparr>Text = str ''layout text''\<rparr>]\<rparr>]\<rparr>\<rparr>]\<rparr>\<rparr>"]
  by (simp add: extractTextFromSlide_def str_def)

text \<open>
  C9, the claim as stated, fails for spreadsheets: when the rows of the only sheet cannot be
  obtained, the sheet is skipped and the call then fails, with the ``no data found'' error.
\<close>

theorem excel_unreadable_sheet_counterexample:
  "ExcelParser_ParseFromReader (Some [(str ''Sheet1'', None)]) = Inl NoDataFound"
  by (simp add: ExcelParser_ParseFromReader_def extractSheets_def)

text \<open>
  C9, amended. Extraction from an opened presentation always succeeds, and its result is that
  of the archive without the slide entries that cannot be opened, read or decoded. Extraction
  from an opened workbook gives the result of the workbook without the sheets whose rows cannot
  be obtained and without the rows whose cells cannot be read; it succeeds when the rows of at
  least one sheet can be obtained, and fails with the ``no data found'' error when they can be
  obtained for no sheet.
\<close>

theorem partial_failures_skipped:
  "(\<exists>out. PPTXParser_ParseFromReader (Some files) = Inr out) \<and>
   PPTXParser_ParseFromReader (Some files) =
     PPTXParser_ParseFromReader (Some (filter (\<lambda>(fName, payload).
        case payload of Decoded slide \<Rightarrow> True | _ \<Rightarrow> False) files)) \<and>
   ExcelParser_ParseFromReader (Some sheetList) =
     ExcelParser_ParseFromReader (Some (map (\<lambda>(sheet, rows).
         (sheet, map_option (filter (\<lambda>row. row \<noteq> None)) rows))
       (filter (\<lambda>(sheet, rows). rows \<noteq> None) sheetList))) \<and>
   ((\<exists>sheet \<in> set sheetList. snd sheet \<noteq> None) \<longrightarrow>
      (\<exists>out. ExcelParser_ParseFromReader (Some sheetList) = Inr out)) \<and>
   ((\<forall>sheet \<in> set sheetList. snd sheet = None) \<longrightarrow>
      ExcelParser_ParseFromReader (Some sheetList) = Inl NoDataFound)"
proof (intro conjI)
  show "\<exists>out. PPTXParser_ParseFromReader (Some files) = Inr out"
    by (simp add: PPTXParser_ParseFromReader_loop)
next
  have "decodedSlides (filter (\<lambda>(fName, payload).
        case payload of Decoded slide \<Rightarrow> True | _ \<Rightarrow> False) files) = decodedSlides files"
    by (rule decodedSlides_filter) simp
  then show "PPTXParser_ParseFromReader (Some files) =
     PPTXParser_ParseFromReader (Some (filter (\<lambda>(fName, payload).
        case payload of Decoded slide \<Rightarrow> True | _ \<Rightarrow> False) files))"
    by (simp add: PPTXParser_ParseFromReader_loop)
next
  have rows: "rowsText (filter (\<lambda>row. row \<noteq> None) rs) = rowsText rs" for rs
    by (induction rs) (auto simp: rowsText_def simp del: not_None_eq)
  have "readableSheets (map (\<lambda>(sheet, rows).
         (sheet, map_option (filter (\<lambda>row. row \<noteq> None)) rows))
       (filter (\<lambda>(sheet, rows). rows \<noteq> None) sheetList)) = readableSheets sheetList"
    by (induction sheetList)
      (auto simp: readableSheets_def rows split: option.splits simp del: not_None_eq)
  then show "ExcelParser_ParseFromReader (Some sheetList) =
     ExcelParser_ParseFromReader (Some (map (\<lambda>(sheet, rows).
         (sheet, map_option (filter (\<lambda>row. row \<noteq> None)) rows))
       (filter (\<lambda>(sheet, rows). rows \<noteq> None) sheetList)))"
    by (simp add: ExcelParser_ParseFromReader_loop)
next
  show "(\<exists>sheet \<in> set sheetList. snd sheet \<noteq> None) \<longrightarrow>
      (\<exists>out. ExcelParser_ParseFromReader (Some sheetList) = Inr out)"
    by (simp add: ExcelParser_ParseFromReader_loop readableSheets_empty_iff)
next
  show "(\<forall>sheet \<in> set sheetList. snd sheet = None) \<longrightarrow>
      ExcelParser_ParseFromReader (Some sheetList) = Inl NoDataFound"
    by (simp add: ExcelParser_ParseFromReader_loop readableSheets_empty_iff)
qed

theorem partial_failures_skipped_witness:
  "(\<exists>out. PPTXParser_ParseFromReader
       (Some [(str ''ppt/slides/slide1.xml'', UnmarshalFails),
              (str ''ppt/slides/slide2.xml'', Decoded \<lparr>SlideData = \<lparr>Shapes = []\<rparr>\<rparr>)]) = Inr out) \<and>
   PPTXParser_ParseFromReader
       (Some [(str ''ppt/slides/slide1.xml'', UnmarshalFails),
              (str ''ppt/slides/slide2.xml'', Decoded \<lparr>SlideData = \<lparr>Shapes = []\<rparr>\<rparr>)]) =
     PPTXParser_ParseFromReader
       (Some [(str ''ppt/slides/slide2.xml'', Decoded \<lparr>SlideData = \<lparr>Shapes = []\<rparr>\<rparr>)]) \<and>
   ExcelParser_ParseFromReader
       (Some [(str ''A'', None), (str ''B'', Some [Some [str ''x''], None, Some [str ''y'']])]) =
     ExcelParser_ParseFromReader (Some [(str ''B'', Some [Some [str ''x''], Some [str ''y'']])]) \<and>
   (\<exists>out. ExcelParser_ParseFromReader
       (Some [(str ''A'', None), (str ''B'', Some [Some [str ''x''], None, Some [str ''y'']])]) = Inr out) \<and>
   ExcelParser_ParseFromReader (Some [(str ''A'', None), (str ''C'', None)]) = Inl NoDataFound"
  using partial_failures_skipped [of "[]" "[(str ''A'', None), (str ''C'', None)]"]
    partial_failures_skipped [of
      "[(str ''ppt/slides/slide1.xml'', UnmarshalFails),
        (str ''ppt/slides/slide2.xml'', Decoded \<lparr>SlideData = \<lparr>Shapes = []\<rparr>\<rparr>)]"
      "[(str ''A'', None), (str ''B'', Some [Some [str ''x''], None, Some [str ''y'']])]"]
  by (simp add: PPTXParser_ParseFromReader_def ExcelParser_ParseFromReader_def extractSheets_def
      extractTextFromSlide_def str_def HasPrefix_def HasSuffix_def Itoa.simps)

section \<open>Properties of the word-processing parser\<close>

lemma docx_walk_paragraphs:
  "docx_walk (map ParagraphElement ps) allText =
     Inr (allText @ concat (map (\<lambda>t. t @ [0x0A])
            (filter (\<lambda>t. t \<noteq> []) (map extractTextFromParagraph ps))))"
  by (induction ps arbitrary: allText) (simp_all add: Let_def)

lemma docx_run_loop:
  "fold (\<lambda>run paragraphText.
       if Content (RunText run) \<noteq> [] then paragraphText @ Content (RunText run)
       else paragraphText) runs acc
     = fold (\<lambda>run paragraphText. paragraphText @ Content (RunText run)) runs acc"
  by (induction runs arbitrary: acc) simp_all

text \<open>The sibling implementation keeps one entry per paragraph of the body, empty or not, and
  joins the entries with line feeds.\<close>

lemma extractTextFromDocument_join:
  "extractTextFromDocument document =
     Join (map extractTextFromParagraph (BodyParagraphs (Body document))) [0x0A]"
proof -
  have "(\<lambda>paragraph result.
          let paragraphText =
            fold (\<lambda>run paragraphText.
              if Content (RunText run) \<noteq> [] then paragraphText @ Content (RunText run)
              else paragraphText)
            (ParagraphRuns paragraph) []
          in if length paragraphText > 0 then result @ [paragraphText] else result @ [[]])
      = (\<lambda>paragraph result. result @ [extractTextFromParagraph paragraph])"
    by (intro ext) (simp add: Let_def docx_run_loop extractTextFromParagraph_def)
  then show ?thesis
    by (simp add: extractTextFromDocument_def fold_append_concat)
qed

text \<open>
  C2. The streaming parser of package \<^verbatim>\<open>documentParser\<close> does not keep empty paragraphs: a
  body made of paragraphs gives one line, ended by a line feed, for each paragraph whose text is
  not empty, and nothing for the others. For the paragraphs \<^verbatim>\<open>Hello\<close>, an empty one and \<^verbatim>\<open>World\<close>
  it returns two lines, where \<^verbatim>\<open>extractTextFromDocument\<close> of the sibling implementation returns
  three, the second one empty.
\<close>

theorem docx_empty_paragraphs_dropped:
  "DOCXParser_ParseFromReader (Some [(str ''word/document.xml'', Some (map ParagraphElement ps))])
     = Inr (concat (map (\<lambda>t. t @ [0x0A])
              (filter (\<lambda>t. t \<noteq> []) (map extractTextFromParagraph ps)))) \<and>
   DOCXParser_ParseFromReader (Some [(str ''word/document.xml'', Some
       [ParagraphElement \<lparr>ParagraphRuns = [\<lparr>RunText = \<lparr>Content = str ''Hello''\<rparr>\<rparr>]\<rparr>,
        ParagraphElement \<lparr>ParagraphRuns = []\<rparr>,
        ParagraphElement \<lparr>ParagraphRuns = [\<lparr>RunText = \<lparr>Content = str ''World''\<rparr>\<rparr>]\<rparr>])])
     = Inr (str ''Hello'' @ [0x0A] @ str ''World'' @ [0x0A]) \<and>
   extractTextFromDocument \<lparr>Body = \<lparr>BodyParagraphs =
       [\<lparr>ParagraphRuns = [\<lparr>RunText = \<lparr>Content = str ''Hello''\<rparr>\<rparr>]\<rparr>,
        \<lparr>ParagraphRuns = []\<rparr>,
        \<lparr>ParagraphRuns = [\<lparr>RunText = \<lparr>Content = str ''World''\<rparr>\<rparr>]\<rparr>]\<rparr>\<rparr>
     = str ''Hello'' @ [0x0A] @ [0x0A] @ str ''World''"
  by (simp add: DOCXParser_ParseFromReader_def docx_walk_paragraphs extractTextFromDocument_join
      extractTextFromParagraph_def str_def)

theorem docx_empty_paragraphs_dropped_witness:
  "DOCXParser_ParseFromReader (Some [(str ''word/document.xml'', Some
       (map ParagraphElement [\<lparr>ParagraphRuns = []\<rparr>,
          \<lparr>ParagraphRuns = [\<lparr>RunText = \<lparr>Content = str ''Hi''\<rparr>\<rparr>, \<lparr>RunText = \<lparr>Content = []\<rparr>\<rparr>]\<rparr>,
          \<lparr>ParagraphRuns = [\<lparr>RunText = \<lparr>Content = []\<rparr>\<rparr>]\<rparr>]))])
     = Inr (str ''Hi'' @ [0x0A])"
  using docx_empty_paragraphs_dropped [of
      "[\<lparr>ParagraphRuns = []\<rparr>,
        \<lparr>ParagraphRuns = [\<lparr>RunText = \<lparr>Content = str ''Hi''\<rparr>\<rparr>, \<lparr>RunText = \<lparr>Content = []\<rparr>\<rparr>]\<rparr>,
        \<lparr>ParagraphRuns = [\<lparr>RunText = \<lparr>Content = []\<rparr>\<rparr>]\<rparr>]"]
  by (simp add: extractTextFromParagraph_def str_def)

end
